theory Spec2Isabelle
  imports Main "HOL-Library.Finite_Map"
begin

section \<open>Strings\<close>

text \<open>
  A Python \<open>str\<close> is modelled as a \<open>string\<close>: a list of 8-bit characters, read as the
  code points below 256. \<open>str.lower\<close> maps the ASCII capitals and the Latin-1 capitals
  (U+00C0 to U+00DE without the multiplication sign U+00D7) to their small letters and
  leaves every other code point below 256 alone. Every statement of this theory is about
  strings of code points below 256.
\<close>

definition upper_letters :: string where
  "upper_letters = ''ABCDEFGHIJKLMNOPQRSTUVWXYZ'' @
     [CHR 0xC0, CHR 0xC1, CHR 0xC2, CHR 0xC3, CHR 0xC4, CHR 0xC5, CHR 0xC6, CHR 0xC7,
      CHR 0xC8, CHR 0xC9, CHR 0xCA, CHR 0xCB, CHR 0xCC, CHR 0xCD, CHR 0xCE, CHR 0xCF,
      CHR 0xD0, CHR 0xD1, CHR 0xD2, CHR 0xD3, CHR 0xD4, CHR 0xD5, CHR 0xD6,
      CHR 0xD8, CHR 0xD9, CHR 0xDA, CHR 0xDB, CHR 0xDC, CHR 0xDD, CHR 0xDE]"

definition lower_letters :: string where
  "lower_letters = ''abcdefghijklmnopqrstuvwxyz'' @
     [CHR 0xE0, CHR 0xE1, CHR 0xE2, CHR 0xE3, CHR 0xE4, CHR 0xE5, CHR 0xE6, CHR 0xE7,
      CHR 0xE8, CHR 0xE9, CHR 0xEA, CHR 0xEB, CHR 0xEC, CHR 0xED, CHR 0xEE, CHR 0xEF,
      CHR 0xF0, CHR 0xF1, CHR 0xF2, CHR 0xF3, CHR 0xF4, CHR 0xF5, CHR 0xF6,
      CHR 0xF8, CHR 0xF9, CHR 0xFA, CHR 0xFB, CHR 0xFC, CHR 0xFD, CHR 0xFE]"

definition lower_char :: "char \<Rightarrow> char" where
  "lower_char c = (case map_of (zip upper_letters lower_letters) c of Some l \<Rightarrow> l | None \<Rightarrow> c)"

definition lower :: "string \<Rightarrow> string" where
  "lower s = map lower_char s"

text \<open>\<open>sep.join(parts)\<close>.\<close>

fun join :: "string \<Rightarrow> string list \<Rightarrow> string" where
  "join sep [] = []"
| "join sep [x] = x"
| "join sep (x # y # ys) = x @ sep @ join sep (y # ys)"

text \<open>The decimal numeral of a natural number, as \<open>"%d"\<close> and \<open>str\<close> print it.\<close>

definition digit_char :: "nat \<Rightarrow> char" where
  "digit_char d = ''0123456789'' ! d"

fun show_nat :: "nat \<Rightarrow> string" where
  "show_nat n = (if n < 10 then [digit_char n] else show_nat (n div 10) @ [digit_char (n mod 10)])"

declare show_nat.simps [simp del]

definition show_int :: "int \<Rightarrow> string" where
  "show_int i = (if i < 0 then CHR ''-'' # show_nat (nat (- i)) else show_nat (nat i))"

section \<open>The regular expressions\<close>

text \<open>
  The fragment of Python's \<open>re\<close> that the three patterns of \<open>tools.py\<close> use, with the
  backtracking semantics of the \<open>re\<close> module: a matcher returns every way to match, in
  the order in which backtracking tries them, and the match is the first one.

  A \<open>cset\<close> matches one character: \<open>LitI c\<close> is the literal \<open>c\<close> under the flag \<open>(?i)\<close>
  (among the code points below 256 a letter matches itself and its other case; above them
  \<open>i\<close> also matches U+0130 and U+0131 and \<open>s\<close> also matches U+017F, which are not modelled),
  \<open>NoneOf cs\<close> is the class \<open>[^cs]\<close>, \<open>Dot\<close> is \<open>.\<close> (any character but the line feed).
  \<open>Rep cs lo hi\<close> is the greedy repetition \<open>cs{lo,hi}\<close> (\<open>hi = None\<close>: unbounded, so
  \<open>cs*\<close> is \<open>Rep cs 0 None\<close> and \<open>cs+\<close> is \<open>Rep cs 1 None\<close>), \<open>Opt r\<close> the greedy \<open>(r)?\<close>,
  \<open>Grp n r\<close> the named group \<open>(?P<n>r)\<close>, \<open>Bol\<close> is \<open>^\<close> and \<open>Eol\<close> is \<open>$\<close> (the end of the
  string, or just before a line feed that ends the string).

  A matcher state is the position reached, the text that is left, and the named groups
  captured so far.
\<close>

datatype cset = LitI char | NoneOf string | Dot

fun cset_ok :: "cset \<Rightarrow> char \<Rightarrow> bool" where
  "cset_ok (LitI a) c = (lower_char c = lower_char a)"
| "cset_ok (NoneOf cs) c = (c \<notin> set cs)"
| "cset_ok Dot c = (c \<noteq> CHR 0x0A)"

datatype rx = One cset | Rep cset nat "nat option" | Cat rx rx | Opt rx | Grp string rx
  | Bol | Eol | Eps

type_synonym groups = "string \<rightharpoonup> string"

type_synonym rx_state = "nat \<times> string \<times> groups"

fun rep_run :: "cset \<Rightarrow> nat \<Rightarrow> nat option \<Rightarrow> rx_state \<Rightarrow> rx_state list" where
  "rep_run cs lo hi (p, [], g) = (if lo = 0 then [(p, [], g)] else [])"
| "rep_run cs lo hi (p, c # s, g) =
     (if cset_ok cs c \<and> hi \<noteq> Some 0
      then rep_run cs (lo - 1) (map_option (\<lambda>h. h - 1) hi) (Suc p, s, g) else [])
     @ (if lo = 0 then [(p, c # s, g)] else [])"

fun rx_run :: "rx \<Rightarrow> rx_state \<Rightarrow> rx_state list" where
  "rx_run (One cs) (p, s, g) =
     (case s of [] \<Rightarrow> [] | c # s' \<Rightarrow> if cset_ok cs c then [(Suc p, s', g)] else [])"
| "rx_run (Rep cs lo hi) st = rep_run cs lo hi st"
| "rx_run (Cat r1 r2) st = concat (map (rx_run r2) (rx_run r1 st))"
| "rx_run (Opt r) st = rx_run r st @ [st]"
| "rx_run (Grp n r) (p, s, g) =
     map (\<lambda>(p', s', g'). (p', s', g'(n \<mapsto> take (p' - p) s))) (rx_run r (p, s, g))"
| "rx_run Bol (p, s, g) = (if p = 0 then [(p, s, g)] else [])"
| "rx_run Eol (p, s, g) = (if s = [] \<or> s = [CHR 0x0A] then [(p, s, g)] else [])"
| "rx_run Eps st = [st]"

definition lit :: "string \<Rightarrow> rx" where
  "lit w = foldr (\<lambda>c r. Cat (One (LitI c)) r) w Eps"

definition seq :: "rx list \<Rightarrow> rx" where
  "seq rs = foldr Cat rs Eps"

text \<open>\<open>pattern.match(s)\<close>: the first match at position 0, as its named groups.\<close>

definition re_match :: "rx \<Rightarrow> string \<Rightarrow> groups option" where
  "re_match r s = (case rx_run r (0, s, Map.empty) of [] \<Rightarrow> None | (p, s', g) # _ \<Rightarrow> Some g)"

text \<open>
  \<open>pattern.finditer(s)\<close>: the matches found scanning from the left, each search starting
  where the last match ended. A match that consumes nothing is yielded and the scan moves
  on by one character; \<open>_CHILDREN_RE\<close>, the one pattern scanned, never matches the empty
  string (\<open>children_match_consumes\<close> below).
\<close>

function re_finditer :: "rx \<Rightarrow> nat \<Rightarrow> string \<Rightarrow> groups list" where
  "re_finditer r p s =
     (case rx_run r (p, s, Map.empty) of
        [] \<Rightarrow> (case s of [] \<Rightarrow> [] | c # cs \<Rightarrow> re_finditer r (Suc p) cs)
      | (p', s', g) # _ \<Rightarrow>
          if length s' < length s then g # re_finditer r p' s'
          else g # (case s of [] \<Rightarrow> [] | c # cs \<Rightarrow> re_finditer r (Suc p) cs))"
  by pat_completeness auto
termination
  by (relation "measure (\<lambda>(r, p, s). length s)") auto

declare re_finditer.simps [simp del]

text \<open>\<open>match.groupdict()\<close>: every named group of the pattern, \<open>None\<close> where it took no part.\<close>

datatype val = VNone | VStr string | VInt int

type_synonym dict = "(string, val) fmap"

definition group_val :: "groups \<Rightarrow> string \<Rightarrow> val" where
  "group_val m n = (case m n of None \<Rightarrow> VNone | Some s \<Rightarrow> VStr s)"

definition groupdict :: "string list \<Rightarrow> groups \<Rightarrow> dict" where
  "groupdict names m = fold (\<lambda>n d. fmupd n (group_val m n) d) names fmempty"

text \<open>
  \<open>_ARMID_RE\<close>:
  \<open>(?i)/subscriptions/(?P<subscription>[^/]+)(/resourceGroups/(?P<resource_group>[^/]+))?\<close>
  \<open>(/providers/(?P<namespace>[^/]+)/(?P<type>[^/]*)/(?P<name>[^/]+)(?P<children>.*))?\<close>
\<close>

definition ARMID_RE :: rx where
  "ARMID_RE = seq
     [lit ''/subscriptions/'', Grp ''subscription'' (Rep (NoneOf ''/'') 1 None),
      Opt (seq [lit ''/resourceGroups/'', Grp ''resource_group'' (Rep (NoneOf ''/'') 1 None)]),
      Opt (seq [lit ''/providers/'', Grp ''namespace'' (Rep (NoneOf ''/'') 1 None),
                lit ''/'', Grp ''type'' (Rep (NoneOf ''/'') 0 None),
                lit ''/'', Grp ''name'' (Rep (NoneOf ''/'') 1 None),
                Grp ''children'' (Rep Dot 0 None)])]"

definition ARMID_groups :: "string list" where
  "ARMID_groups =
     [''subscription'', ''resource_group'', ''namespace'', ''type'', ''name'', ''children'']"

text \<open>
  \<open>_CHILDREN_RE\<close>:
  \<open>(?i)(/providers/(?P<child_namespace>[^/]+))?/(?P<child_type>[^/]*)/(?P<child_name>[^/]+)\<close>
\<close>

definition CHILDREN_RE :: rx where
  "CHILDREN_RE = seq
     [Opt (seq [lit ''/providers/'', Grp ''child_namespace'' (Rep (NoneOf ''/'') 1 None)]),
      lit ''/'', Grp ''child_type'' (Rep (NoneOf ''/'') 0 None),
      lit ''/'', Grp ''child_name'' (Rep (NoneOf ''/'') 1 None)]"

definition CHILDREN_groups :: "string list" where
  "CHILDREN_groups = [''child_namespace'', ''child_type'', ''child_name'']"

text \<open>\<open>_ARMNAME_RE\<close>: \<open>^[^<>%&:\?/]{1,260}$\<close>\<close>

definition ARMNAME_RE :: rx where
  "ARMNAME_RE = seq [Bol, Rep (NoneOf ''<>%&:?/'') 1 (Some 260), Eol]"

section \<open>Dictionaries, values and exceptions\<close>

text \<open>
  A \<open>dict\<close> with string keys is a finite map; its values are \<open>None\<close>, strings and
  integers. An exception is the left summand of the result; \<open>Raised t\<close> is an instance of
  the caller's exception type \<open>t\<close>.
\<close>

datatype py_error = KeyError | TypeError | Raised string

definition bindE :: "py_error + 'a \<Rightarrow> ('a \<Rightarrow> py_error + 'b) \<Rightarrow> py_error + 'b" where
  "bindE m f = (case m of Inl e \<Rightarrow> Inl e | Inr x \<Rightarrow> f x)"

text \<open>\<open>d[k]\<close> and \<open>d.get(k)\<close>.\<close>

definition dict_getitem :: "dict \<Rightarrow> string \<Rightarrow> py_error + val" where
  "dict_getitem d k = (case fmlookup d k of None \<Rightarrow> Inl KeyError | Some v \<Rightarrow> Inr v)"

definition dict_get :: "dict \<Rightarrow> string \<Rightarrow> val" where
  "dict_get d k = (case fmlookup d k of None \<Rightarrow> VNone | Some v \<Rightarrow> v)"

text \<open>\<open>{k: v for k, v in d.items() if v is not None}\<close>\<close>

definition drop_none :: "dict \<Rightarrow> dict" where
  "drop_none d = fmfilter (\<lambda>k. fmlookup d k \<noteq> Some VNone) d"

fun truthy :: "val \<Rightarrow> bool" where
  "truthy VNone = False"
| "truthy (VStr s) = (s \<noteq> [])"
| "truthy (VInt i) = (i \<noteq> 0)"

fun str_of_val :: "val \<Rightarrow> string" where
  "str_of_val VNone = ''None''"
| "str_of_val (VStr s) = s"
| "str_of_val (VInt i) = show_int i"

text \<open>
  \<open>template.format(**d)\<close> for a template of literal text and \<open>{key}\<close> fields. A key that
  \<open>d\<close> lacks raises \<open>KeyError\<close>, the only exception \<open>format\<close> raises here.
\<close>

datatype piece = Txt string | Fld string

fun format :: "piece list \<Rightarrow> dict \<Rightarrow> py_error + string" where
  "format [] d = Inr []"
| "format (Txt s # ps) d = bindE (format ps d) (\<lambda>r. Inr (s @ r))"
| "format (Fld k # ps) d =
     bindE (dict_getitem d k) (\<lambda>v. bindE (format ps d) (\<lambda>r. Inr (str_of_val v @ r)))"

text \<open>\<open>range(1, n)\<close> for a value \<open>n\<close>: only an integer is accepted.\<close>

fun py_range1 :: "val \<Rightarrow> py_error + nat list" where
  "py_range1 (VInt n) = Inr [1..<nat n]"
| "py_range1 _ = Inl TypeError"

section \<open>parse_resource_id\<close>

text \<open>The loop of \<open>_get_parents_from_parts\<close> over \<open>range(1, last_child_num)\<close>.\<close>

fun parents_loop :: "nat list \<Rightarrow> dict \<times> string list \<Rightarrow> py_error + dict \<times> string list" where
  "parents_loop [] (kwargs, parent_builder) = Inr (kwargs, parent_builder)"
| "parents_loop (index # rest) (kwargs, parent_builder) =
     (let child_namespace = dict_get kwargs (''child_namespace_'' @ show_nat index);
          pb1 = (if child_namespace \<noteq> VNone
                 then parent_builder @ [''providers/'' @ str_of_val child_namespace @ ''/'']
                 else parent_builder);
          kwargs1 = fmupd (''child_parent_'' @ show_nat index) (VStr (concat pb1)) kwargs
      in bindE (format [Fld (''child_type_'' @ show_nat index), Txt ''/'',
                        Fld (''child_name_'' @ show_nat index), Txt ''/''] kwargs1)
           (\<lambda>s. parents_loop rest (kwargs1, pb1 @ [s])))"

definition get_parents_from_parts :: "dict \<Rightarrow> py_error + dict" where
  "get_parents_from_parts kwargs =
     bindE (dict_getitem kwargs ''last_child_num'') (\<lambda>lcn.
     bindE (if lcn \<noteq> VNone then
              bindE (format [Fld ''type'', Txt ''/'', Fld ''name'', Txt ''/''] kwargs) (\<lambda>s.
              bindE (py_range1 lcn) (\<lambda>indices.
              bindE (parents_loop indices (kwargs, [s])) (\<lambda>(kwargs1, pb1).
              bindE (dict_getitem kwargs1 ''last_child_num'') (\<lambda>lcn1.
                let child_namespace = dict_get kwargs1 (''child_namespace_'' @ str_of_val lcn1);
                    pb2 = (if child_namespace \<noteq> VNone
                           then pb1 @ [''providers/'' @ str_of_val child_namespace @ ''/'']
                           else pb1)
                in bindE (dict_getitem kwargs1 ''last_child_num'') (\<lambda>lcn2.
                   Inr (fmupd (''child_parent_'' @ str_of_val lcn2) (VStr (concat pb2)) kwargs1,
                        pb2))))))
            else Inr (kwargs, []))
       (\<lambda>(kwargs2, parent_builder).
     bindE (dict_getitem kwargs2 ''name'') (\<lambda>name.
       Inr (fmupd ''resource_parent''
              (if truthy name then VStr (concat parent_builder) else VNone) kwargs2))))"

text \<open>\<open>d.get(k) or d[k']\<close>: the second lookup happens only when the first value is falsy.\<close>

definition get_or_getitem :: "dict \<Rightarrow> string \<Rightarrow> string \<Rightarrow> py_error + val" where
  "get_or_getitem d k k' = (if truthy (dict_get d k) then Inr (dict_get d k) else dict_getitem d k')"

definition populate_alternate_kwargs :: "dict \<Rightarrow> py_error + dict" where
  "populate_alternate_kwargs kwargs =
     bindE (dict_getitem kwargs ''namespace'') (\<lambda>resource_namespace.
     bindE (dict_getitem kwargs ''last_child_num'') (\<lambda>lcn.
     bindE (get_or_getitem kwargs (''child_type_'' @ str_of_val lcn) ''type'') (\<lambda>resource_type.
     bindE (dict_getitem kwargs ''last_child_num'') (\<lambda>lcn'.
     bindE (get_or_getitem kwargs (''child_name_'' @ str_of_val lcn') ''name'') (\<lambda>resource_name.
     bindE (get_parents_from_parts kwargs) (\<lambda>kwargs1.
       Inr (fmupd ''resource_name'' resource_name
           (fmupd ''resource_type'' resource_type
           (fmupd ''resource_namespace'' resource_namespace kwargs1)))))))))"

text \<open>
  The loop of \<open>parse_resource_id\<close> over \<open>enumerate(children)\<close>: the groups of the match
  numbered \<open>count\<close> are stored under their names with the suffix \<open>_{count + 1}\<close>.
\<close>

fun children_loop :: "(nat \<times> groups) list \<Rightarrow> dict \<times> nat option \<Rightarrow> dict \<times> nat option" where
  "children_loop [] (result, count) = (result, count)"
| "children_loop ((count, child) # rest) (result, _) =
     children_loop rest
       (fold (\<lambda>key d. fmupd (key @ ''_'' @ show_nat (count + 1)) (group_val child key) d)
          CHILDREN_groups result,
        Some count)"

text \<open>\<open>v or ""\<close> as the argument of \<open>finditer\<close>, which takes a string.\<close>

fun str_or_empty :: "val \<Rightarrow> py_error + string" where
  "str_or_empty VNone = Inr []"
| "str_or_empty (VStr s) = Inr s"
| "str_or_empty (VInt i) = (if i = 0 then Inr [] else Inl TypeError)"

definition parse_resource_id :: "string \<Rightarrow> py_error + dict" where
  "parse_resource_id rid =
     (if rid = [] then Inr fmempty
      else case re_match ARMID_RE rid of
        Some m \<Rightarrow>
          (let result = groupdict ARMID_groups m in
           bindE (dict_getitem result ''children'') (\<lambda>ch.
           bindE (str_or_empty ch) (\<lambda>text.
             let children = re_finditer CHILDREN_RE 0 text;
                 (result1, count) = children_loop (zip [0..<length children] children) (result, None);
                 result2 = fmupd ''last_child_num''
                             (case count of Some c \<Rightarrow> VInt (int c + 1) | None \<Rightarrow> VNone) result1
             in bindE (populate_alternate_kwargs result2) (\<lambda>final_result.
                Inr (drop_none final_result)))))
      | None \<Rightarrow> Inr (drop_none (fmupd ''name'' (VStr rid) fmempty)))"

section \<open>resource_id\<close>

text \<open>
  Decimal numerals are injective, so among the finitely many keys of a dictionary only
  finitely many are \<open>child_type_{n}\<close>: this is why the loop of \<open>resource_id\<close> ends.
\<close>

lemma digit_char_inj: "a < 10 \<Longrightarrow> b < 10 \<Longrightarrow> digit_char a = digit_char b \<Longrightarrow> a = b"
proof -
  assume a: "a < 10" and b: "b < 10" and e: "digit_char a = digit_char b"
  have d: "distinct ''0123456789''" by simp
  have "length ''0123456789'' = 10" by simp
  with a b e d show ?thesis
    unfolding digit_char_def by (metis nth_eq_iff_index_eq)
qed

lemma show_nat_nonempty: "show_nat n \<noteq> []"
  by (subst show_nat.simps) simp

lemma show_nat_inj: "show_nat m = show_nat n \<Longrightarrow> m = n"
proof (induction m arbitrary: n rule: show_nat.induct)
  case (1 m)
  show ?case
  proof (cases "m < 10")
    case True
    note m = this
    show ?thesis
    proof (cases "n < 10")
      case True
      with m "1.prems" show ?thesis
        by (simp add: show_nat.simps [of m] show_nat.simps [of n] digit_char_inj)
    next
      case False
      with m "1.prems" show_nat_nonempty [of "n div 10"] show ?thesis
        by (simp add: show_nat.simps [of m] show_nat.simps [of n])
    qed
  next
    case False
    note m = this
    show ?thesis
    proof (cases "n < 10")
      case True
      with m "1.prems" show_nat_nonempty [of "m div 10"] show ?thesis
        by (simp add: show_nat.simps [of m] show_nat.simps [of n])
    next
      case False
      with m "1.prems" have e: "show_nat (m div 10) = show_nat (n div 10)"
        and d: "digit_char (m mod 10) = digit_char (n mod 10)"
        by (simp_all add: show_nat.simps [of m] show_nat.simps [of n])
      from "1.IH" [OF m e] have "m div 10 = n div 10" .
      moreover from d have "m mod 10 = n mod 10"
        by (intro digit_char_inj) simp_all
      ultimately show ?thesis
        by (metis div_mult_mod_eq)
    qed
  qed
qed

lemma show_nat_eq_iff [simp]: "show_nat m = show_nat n \<longleftrightarrow> m = n"
  by (auto dest: show_nat_inj)

lemma format_Fld_dom: "format (Fld k # ps) d = Inr s \<Longrightarrow> k \<in> fmdom' d"
  by (auto simp: bindE_def dict_getitem_def fmdom'I split: option.splits sum.splits)

text \<open>
  The \<open>while True\<close> loop of \<open>resource_id\<close>, left through the \<open>KeyError\<close> of the first
  level whose \<open>child_type\<close> or \<open>child_name\<close> is missing; the inner \<open>try\<close> skips a missing
  \<open>child_namespace\<close>.
\<close>

function rid_loop :: "dict \<Rightarrow> nat \<Rightarrow> string list \<Rightarrow> string list" where
  "rid_loop kwargs count rid_builder =
     (let rb1 = (case format [Txt ''providers/'', Fld (''child_namespace_'' @ show_nat count)] kwargs of
                   Inr s \<Rightarrow> rid_builder @ [s]
                 | Inl _ \<Rightarrow> rid_builder)
      in case format [Fld (''child_type_'' @ show_nat count), Txt ''/'',
                      Fld (''child_name_'' @ show_nat count)] kwargs of
           Inr s \<Rightarrow> rid_loop kwargs (Suc count) (rb1 @ [s])
         | Inl _ \<Rightarrow> rb1)"
  by pat_completeness auto
termination
proof (relation "measure (\<lambda>(kwargs, count, rb).
    card {k. count \<le> k \<and> ''child_type_'' @ show_nat k \<in> fmdom' kwargs})", goal_cases)
  case 1
  show ?case by simp
next
  case (2 kwargs count rid_builder x y)
  let ?K = "\<lambda>c. {k. c \<le> k \<and> ''child_type_'' @ show_nat k \<in> fmdom' kwargs}"
  have "inj (\<lambda>k. ''child_type_'' @ show_nat k)"
    by (simp add: inj_def)
  then have "finite {k. ''child_type_'' @ show_nat k \<in> fmdom' kwargs}"
    using finite_vimageI [of "fmdom' kwargs" "\<lambda>k. ''child_type_'' @ show_nat k"]
    by (simp add: vimage_def)
  then have fin: "finite (?K count)"
    by (rule rev_finite_subset) auto
  from 2 have "''child_type_'' @ show_nat count \<in> fmdom' kwargs"
    by (blast dest: format_Fld_dom)
  then have "count \<in> ?K count" by simp
  moreover have "count \<notin> ?K (Suc count)" by simp
  moreover have "?K (Suc count) \<subseteq> ?K count" by auto
  ultimately have "?K (Suc count) \<subset> ?K count" by blast
  with fin have "card (?K (Suc count)) < card (?K count)"
    by (rule psubset_card_mono)
  then show ?case by simp
qed

declare rid_loop.simps [simp del]

text \<open>
  \<open>resource_id(**kwargs)\<close>. The first \<open>format\<close> stands outside the \<open>try\<close>: its \<open>KeyError\<close>
  reaches the caller. Every later one is caught, and what was appended so far is joined.
\<close>

definition resource_id :: "dict \<Rightarrow> py_error + string" where
  "resource_id kwargs0 =
     (let kwargs = drop_none kwargs0 in
      bindE (format [Txt ''/subscriptions/'', Fld ''subscription''] kwargs) (\<lambda>s0.
        let rb0 = [s0];
            rb1 = (case format [Txt ''resourceGroups/'', Fld ''resource_group''] kwargs of
                     Inr s \<Rightarrow> rb0 @ [s]
                   | Inl _ \<Rightarrow> rb0)
        in Inr (join ''/''
             (case format [Txt ''providers/'', Fld ''namespace''] kwargs of
                Inl _ \<Rightarrow> rb1
              | Inr s1 \<Rightarrow>
                  (case format [Fld ''type'', Txt ''/'', Fld ''name''] kwargs of
                     Inl _ \<Rightarrow> rb1 @ [s1]
                   | Inr s2 \<Rightarrow> rid_loop kwargs 1 (rb1 @ [s1, s2]))))))"

section \<open>The validators\<close>

text \<open>
  \<open>is_valid_resource_id\<close> returns the value of \<open>rid and ... == ...\<close>: the empty string
  itself when \<open>rid\<close> is empty, a boolean otherwise. A \<open>KeyError\<close> inside the \<open>try\<close> leaves
  \<open>is_valid\<close> at \<open>False\<close>. The exception type is given by its name.
\<close>

datatype ret = RBool bool | RStr string

fun ret_truthy :: "ret \<Rightarrow> bool" where
  "ret_truthy (RBool b) = b"
| "ret_truthy (RStr s) = (s \<noteq> [])"

definition is_valid_resource_id :: "string \<Rightarrow> string option \<Rightarrow> py_error + ret" where
  "is_valid_resource_id rid exception_type =
     (let attempt =
        (if rid = [] then Inr (RStr rid)
         else bindE (parse_resource_id rid) (\<lambda>parts.
              bindE (resource_id parts) (\<lambda>s. Inr (RBool (lower s = lower rid)))))
      in bindE (case attempt of Inl KeyError \<Rightarrow> Inr (RBool False) | r \<Rightarrow> r) (\<lambda>is_valid.
           case exception_type of
             Some t \<Rightarrow> if \<not> ret_truthy is_valid then Inl (Raised t) else Inr is_valid
           | None \<Rightarrow> Inr is_valid))"

definition is_valid_resource_name :: "string \<Rightarrow> string option \<Rightarrow> py_error + bool" where
  "is_valid_resource_name rname exception_type =
     (case re_match ARMNAME_RE rname of
        Some _ \<Rightarrow> Inr True
      | None \<Rightarrow> (case exception_type of Some t \<Rightarrow> Inl (Raised t) | None \<Rightarrow> Inr False))"

section \<open>The matcher: greedy repetition\<close>

text \<open>
  A greedy repetition of a character class offers the longest run first and then gives
  characters back one at a time: from a run of \<open>n\<close> matching characters (capped by the
  upper bound) it yields the positions \<open>n, n - 1, ..., lo\<close>.
\<close>

definition rep_max :: "cset \<Rightarrow> nat option \<Rightarrow> string \<Rightarrow> nat" where
  "rep_max cs hi s = (let n = length (takeWhile (cset_ok cs) s) in
      case hi of None \<Rightarrow> n | Some h \<Rightarrow> min h n)"

lemma rep_max_Nil [simp]: "rep_max cs hi [] = 0"
  by (simp add: rep_max_def split: option.splits)

lemma rep_max_Cons:
  "rep_max cs hi (c # s) =
     (if cset_ok cs c \<and> hi \<noteq> Some 0 then Suc (rep_max cs (map_option (\<lambda>h. h - 1) hi) s) else 0)"
  by (auto simp: rep_max_def Let_def split: option.splits)

lemma rev_upt_0_Suc: "rev [0..<Suc (Suc m)] = rev (map Suc [0..<Suc m]) @ [0]"
proof -
  have "[0..<Suc (Suc m)] = 0 # map Suc [0..<Suc m]"
    by (simp only: map_Suc_upt upt_conv_Cons [of 0 "Suc (Suc m)"])
  then show ?thesis by (simp only: rev.simps)
qed

lemma rep_run_eq:
  "rep_run cs lo hi (p, s, g) =
     map (\<lambda>k. (p + k, drop k s, g)) (rev [lo..<Suc (rep_max cs hi s)])"
proof (induction s arbitrary: lo hi p)
  case Nil
  show ?case by (cases lo) simp_all
next
  case (Cons c s)
  show ?case
  proof (cases "cset_ok cs c \<and> hi \<noteq> Some 0")
    case False
    then have "rep_max cs hi (c # s) = 0" by (simp add: rep_max_Cons)
    with False show ?thesis by (cases lo) auto
  next
    case True
    let ?hi = "map_option (\<lambda>h. h - 1) hi"
    let ?m = "rep_max cs ?hi s"
    from True have m: "rep_max cs hi (c # s) = Suc ?m" by (simp add: rep_max_Cons)
    have shift: "map (\<lambda>k. (p + k, drop k (c # s), g)) (rev (map Suc xs)) =
        map (\<lambda>k. (Suc p + k, drop k s, g)) (rev xs)" for xs
      by (simp add: rev_map comp_def)
    show ?thesis
    proof (cases lo)
      case 0
      with True m show ?thesis
        by (simp add: Cons.IH rev_upt_0_Suc shift del: upt_Suc)
    next
      case (Suc l)
      have "[Suc l..<Suc (Suc ?m)] = map Suc [l..<Suc ?m]"
        by (simp only: map_Suc_upt)
      with True m Suc show ?thesis
        by (simp add: Cons.IH shift del: upt_Suc)
    qed
  qed
qed


lemma rx_run_seq_Nil [simp]: "rx_run (seq []) st = [st]"
  by (simp add: seq_def)

lemma rx_run_seq_Cons [simp]: "rx_run (seq (r # rs)) st = concat (map (rx_run (seq rs)) (rx_run r st))"
  by (simp add: seq_def)

lemma concat_map_singleton [simp]: "concat (map (\<lambda>x. [x]) xs) = xs"
  by (induction xs) simp_all

lemma concat_map_eq_Nil: "concat (map f xs) = [] \<longleftrightarrow> (\<forall>x\<in>set xs. f x = [])"
  by (induction xs) auto

section \<open>is_valid_resource_name\<close>

text \<open>The characters that \<open>_ARMNAME_RE\<close> admits in a name.\<close>

definition name_ok :: "char \<Rightarrow> bool" where
  "name_ok c = (c \<notin> set ''<>%&:?/'')"

lemma re_match_ARMNAME:
  "re_match ARMNAME_RE s \<noteq> None \<longleftrightarrow>
     (\<exists>k. 1 \<le> k \<and> k \<le> rep_max (NoneOf ''<>%&:?/'') (Some 260) s
          \<and> (drop k s = [] \<or> drop k s = [CHR 0x0A]))"
proof -
  let ?m = "rep_max (NoneOf ''<>%&:?/'') (Some 260) s"
  have "re_match ARMNAME_RE s \<noteq> None \<longleftrightarrow> rx_run ARMNAME_RE (0, s, Map.empty) \<noteq> []"
    by (simp add: re_match_def split: list.splits)
  also have "\<dots> \<longleftrightarrow> (\<exists>k\<in>set [1..<Suc ?m]. drop k s = [] \<or> drop k s = [CHR 0x0A])"
    by (simp add: ARMNAME_RE_def rep_run_eq concat_map_eq_Nil del: upt_Suc set_upt)
  also have "\<dots> \<longleftrightarrow> (\<exists>k. 1 \<le> k \<and> k \<le> ?m \<and> (drop k s = [] \<or> drop k s = [CHR 0x0A]))"
    by auto
  finally show ?thesis .
qed

lemma takeWhile_all_iff: "length (takeWhile P s) = length s \<longleftrightarrow> (\<forall>c\<in>set s. P c)"
  by (induction s) auto

lemma takeWhile_prefix_ok: "k \<le> length (takeWhile P s) \<Longrightarrow> c \<in> set (take k s) \<Longrightarrow> P c"
proof -
  assume k: "k \<le> length (takeWhile P s)" and c: "c \<in> set (take k s)"
  have "take k s = take k (takeWhile P s)"
    using k takeWhile_dropWhile_id [of P s] by (metis take_append diff_is_0_eq take_0 append_Nil2)
  with c have "c \<in> set (takeWhile P s)" by (metis in_set_takeD)
  then show "P c" by (rule set_takeWhileD [THEN conjunct2])
qed

lemma is_valid_resource_name_iff:
  "is_valid_resource_name s None = Inr True \<longleftrightarrow>
     (\<forall>c\<in>set s. name_ok c) \<and> s \<noteq> [] \<and>
     (length s \<le> 260 \<or> (length s = 261 \<and> last s = CHR 0x0A))"
proof -
  let ?cs = "NoneOf ''<>%&:?/''"
  let ?n = "length (takeWhile (cset_ok ?cs) s)"
  have ok: "cset_ok ?cs = name_ok" by (simp add: fun_eq_iff name_ok_def)
  have m: "rep_max ?cs (Some 260) s = min 260 ?n" by (simp add: rep_max_def)
  have nl: "name_ok (CHR 0x0A)" by (simp add: name_ok_def)
  have "is_valid_resource_name s None = Inr True \<longleftrightarrow> re_match ARMNAME_RE s \<noteq> None"
    by (simp add: is_valid_resource_name_def split: option.splits)
  also have "\<dots> \<longleftrightarrow> (\<exists>k. 1 \<le> k \<and> k \<le> 260 \<and> k \<le> ?n \<and> (drop k s = [] \<or> drop k s = [CHR 0x0A]))"
    using re_match_ARMNAME [of s] by (simp add: m)
  also have "\<dots> \<longleftrightarrow> (\<forall>c\<in>set s. name_ok c) \<and> s \<noteq> [] \<and>
     (length s \<le> 260 \<or> (length s = 261 \<and> last s = CHR 0x0A))"
  proof
    assume "\<exists>k. 1 \<le> k \<and> k \<le> 260 \<and> k \<le> ?n \<and> (drop k s = [] \<or> drop k s = [CHR 0x0A])"
    then obtain k where k: "1 \<le> k" "k \<le> 260" "k \<le> ?n"
      and d: "drop k s = [] \<or> drop k s = [CHR 0x0A]" by blast
    have s: "s = take k s @ drop k s" by simp
    have pre: "\<forall>c\<in>set (take k s). name_ok c"
      using k(3) takeWhile_prefix_ok [of k "cset_ok ?cs" s] by (simp add: ok)
    from d nl have "\<forall>c\<in>set (drop k s). name_ok c" by auto
    moreover have "set s = set (take k s) \<union> set (drop k s)" by (metis s set_append)
    ultimately have all: "\<forall>c\<in>set s. name_ok c" using pre by auto
    have kn: "k \<le> length s" using k(3) length_takeWhile_le [of "cset_ok ?cs" s] by simp
    from d show "(\<forall>c\<in>set s. name_ok c) \<and> s \<noteq> [] \<and>
       (length s \<le> 260 \<or> (length s = 261 \<and> last s = CHR 0x0A))"
    proof
      assume "drop k s = []"
      with kn k all show ?thesis by auto
    next
      assume e: "drop k s = [CHR 0x0A]"
      then have "length (drop k s) = 1" by simp
      then have len: "length s = Suc k" by simp
      from e have "last s = CHR 0x0A" by (metis s last_appendR last_snoc append_Nil not_Cons_self2)
      with len k all show ?thesis by auto
    qed
  next
    assume a: "(\<forall>c\<in>set s. name_ok c) \<and> s \<noteq> [] \<and>
       (length s \<le> 260 \<or> (length s = 261 \<and> last s = CHR 0x0A))"
    then have n: "?n = length s" by (simp add: ok takeWhile_all_iff)
    from a have "length s \<le> 260 \<or> (length s = 261 \<and> last s = CHR 0x0A)" by simp
    then show "\<exists>k. 1 \<le> k \<and> k \<le> 260 \<and> k \<le> ?n \<and> (drop k s = [] \<or> drop k s = [CHR 0x0A])"
    proof
      assume "length s \<le> 260"
      with a n show ?thesis by (intro exI [of _ "length s"]) (simp add: Suc_le_eq)
    next
      assume b: "length s = 261 \<and> last s = CHR 0x0A"
      then have "s = butlast s @ [CHR 0x0A]" using a by (metis append_butlast_last_id)
      moreover have "length (butlast s) = 260" using b by simp
      ultimately have "drop 260 s = [CHR 0x0A]" by (metis append_eq_conv_conj)
      with n b show ?thesis by (intro exI [of _ 260]) simp
    qed
  qed
  finally show ?thesis .
qed

text \<open>
  C9. A name is said to be valid if and only if its length is between 1 and 260 and it has
  none of the characters \<open>< > % & : ? /\<close>. The pattern ends with \<open>$\<close>, which also matches
  just before a line feed that ends the string, so \<open>is_valid_resource_name\<close> accepts the
  name of 261 characters made of 260 letters \<open>a\<close> and a final line feed.
\<close>

theorem is_valid_resource_name_accepts_261:
  "is_valid_resource_name (replicate 260 CHR ''a'' @ [CHR 0x0A]) None = Inr True
   \<and> length (replicate 260 CHR ''a'' @ [CHR 0x0A]) = 261"
  by (simp add: is_valid_resource_name_iff name_ok_def)

section \<open>The matcher: the patterns of resource ids\<close>

text \<open>
  What the backtracking matcher computes on \<open>_ARMID_RE\<close> and \<open>_CHILDREN_RE\<close>, without
  backtracking: a segment group \<open>[^/]+\<close> or \<open>[^/]*\<close> takes the text up to the next slash
  (\<open>seg\<close>, leaving \<open>rest\<close>), and a literal is compared ignoring case (\<open>ci_prefix\<close>).
\<close>

fun ci_prefix :: "string \<Rightarrow> string \<Rightarrow> bool" where
  "ci_prefix [] s = True"
| "ci_prefix (a # w) [] = False"
| "ci_prefix (a # w) (c # s) = (lower_char c = lower_char a \<and> ci_prefix w s)"

lemma ci_prefix_iff: "ci_prefix w s \<longleftrightarrow> length w \<le> length s \<and> lower (take (length w) s) = lower w"
  by (induction w s rule: ci_prefix.induct) (auto simp: lower_def)

lemma rx_run_lit: "rx_run (lit w) (p, s, g) =
    (if ci_prefix w s then [(p + length w, drop (length w) s, g)] else [])"
proof (induction w arbitrary: p s)
  case Nil
  show ?case by (simp add: lit_def)
next
  case (Cons a w)
  have "lit (a # w) = Cat (One (LitI a)) (lit w)" by (simp add: lit_def)
  then show ?case
    by (cases s) (simp_all add: Cons.IH)
qed

definition seg :: "string \<Rightarrow> string" where
  "seg s = takeWhile (\<lambda>c. c \<noteq> CHR ''/'') s"

definition rest :: "string \<Rightarrow> string" where
  "rest s = dropWhile (\<lambda>c. c \<noteq> CHR ''/'') s"

lemma cset_ok_NoneOf_slash: "cset_ok (NoneOf ''/'') = (\<lambda>c. c \<noteq> CHR ''/'')"
  by (simp add: fun_eq_iff)

lemma rx_run_Grp_Rep_any:
  "rx_run (Grp n (Rep cs lo None)) (p, s, g) =
     map (\<lambda>k. (p + k, drop k s, g(n \<mapsto> take k s)))
       (rev [lo..<Suc (length (takeWhile (cset_ok cs) s))])"
  by (simp add: rep_run_eq rep_max_def comp_def del: upt_Suc)

lemma rx_run_Grp_Rep:
  "rx_run (Grp n (Rep (NoneOf ''/'') lo None)) (p, s, g) =
     map (\<lambda>k. (p + k, drop k s, g(n \<mapsto> take k s))) (rev [lo..<Suc (length (seg s))])"
  by (simp only: rx_run_Grp_Rep_any seg_def cset_ok_NoneOf_slash)

lemma drop_seg_not_slash:
  assumes "k < length (seg s)"
  shows "\<exists>c t. drop k s = c # t \<and> c \<noteq> CHR ''/''"
proof -
  let ?P = "\<lambda>c. c \<noteq> CHR ''/''"
  from assms have k: "k < length (takeWhile ?P s)" by (simp add: seg_def)
  then have ks: "k < length s" using length_takeWhile_le [of ?P s] by simp
  have "s ! k = takeWhile ?P s ! k" using k by (simp add: takeWhile_nth)
  moreover have "?P (takeWhile ?P s ! k)" using k nth_mem set_takeWhileD by fastforce
  ultimately have "s ! k \<noteq> CHR ''/''" by simp
  with ks show ?thesis by (metis Cons_nth_drop_Suc)
qed

lemma lower_char_cases: "lower_char c = c \<or> lower_char c \<in> set lower_letters"
proof (cases "map_of (zip upper_letters lower_letters) c")
  case None
  then show ?thesis by (simp add: lower_char_def)
next
  case (Some l)
  then have "(c, l) \<in> set (zip upper_letters lower_letters)" by (rule map_of_SomeD)
  then have "l \<in> set lower_letters" by (rule set_zip_rightD)
  with Some show ?thesis by (simp add: lower_char_def)
qed

lemma lower_char_slash [simp]: "lower_char CHR ''/'' = CHR ''/''"
  by (simp add: lower_char_def upper_letters_def lower_letters_def)

lemma lower_char_eq_slash [simp]: "lower_char c = CHR ''/'' \<longleftrightarrow> c = CHR ''/''"
proof
  assume a: "lower_char c = CHR ''/''"
  have "CHR ''/'' \<notin> set lower_letters" by (simp add: lower_letters_def)
  with a lower_char_cases [of c] show "c = CHR ''/''" by auto
qed simp

lemma rx_run_lit_slash_Nil [simp]: "rx_run (lit ''/'') (p, [], g) = []"
  by (simp add: rx_run_lit)

lemma rx_run_lit_slash_Cons [simp]:
  "rx_run (lit ''/'') (p, c # t, g) = (if c = CHR ''/'' then [(Suc p, t, g)] else [])"
  by (simp add: rx_run_lit)

lemma drop_seg: "drop (length (seg s)) s = rest s"
  by (simp add: seg_def rest_def dropWhile_eq_drop [symmetric])

lemma take_seg: "take (length (seg s)) s = seg s"
  by (simp add: seg_def takeWhile_eq_take [symmetric])

lemma rest_cases: "rest s = [] \<or> (\<exists>t. rest s = CHR ''/'' # t)"
proof (cases "rest s")
  case Nil
  then show ?thesis by simp
next
  case (Cons c t)
  then have "rest s \<noteq> []" by simp
  then have "hd (rest s) = CHR ''/''"
    unfolding rest_def using hd_dropWhile [of "\<lambda>c. c \<noteq> CHR ''/''" s] by simp
  with Cons show ?thesis by simp
qed

text \<open>Only the longest candidate of a segment group can be followed by a slash.\<close>

lemma seg_then_slash:
  "concat (map (rx_run (seq (lit ''/'' # rs))) (rx_run (Grp n (Rep (NoneOf ''/'') lo None)) (p, s, g))) =
     (if lo \<le> length (seg s) \<and> rest s \<noteq> []
      then rx_run (seq rs) (Suc (p + length (seg s)), tl (rest s), g(n \<mapsto> seg s)) else [])"
proof -
  let ?N = "length (seg s)"
  let ?h = "\<lambda>k. (p + k, drop k s, g(n \<mapsto> take k s))"
  let ?F = "rx_run (seq (lit ''/'' # rs))"
  have small: "?F (?h k) = []" if "k < ?N" for k
    using drop_seg_not_slash [OF that] by auto
  show ?thesis
  proof (cases "lo \<le> ?N")
    case False
    then show ?thesis unfolding rx_run_Grp_Rep by simp
  next
    case True
    then have "rev [lo..<Suc ?N] = ?N # rev [lo..<?N]" by simp
    moreover have "concat (map (\<lambda>k. ?F (?h k)) (rev [lo..<?N])) = []"
      by (simp add: concat_map_eq_Nil small del: rx_run_seq_Cons)
    ultimately have "concat (map ?F (rx_run (Grp n (Rep (NoneOf ''/'') lo None)) (p, s, g))) = ?F (?h ?N)"
      unfolding rx_run_Grp_Rep by (simp add: comp_def del: upt_Suc rx_run_seq_Cons)
    also have "\<dots> = (if rest s \<noteq> [] then rx_run (seq rs) (Suc (p + ?N), tl (rest s), g(n \<mapsto> seg s)) else [])"
      using rest_cases [of s] by (auto simp: drop_seg take_seg)
    finally show ?thesis using True by simp
  qed
qed


fun first_of :: "'a list \<Rightarrow> 'a option" where
  "first_of [] = None"
| "first_of (x # xs) = Some x"

lemma first_of_append: "first_of (xs @ ys) = (case first_of xs of None \<Rightarrow> first_of ys | Some x \<Rightarrow> Some x)"
  by (cases xs) simp_all

lemma first_of_map: "first_of (map f xs) = map_option f (first_of xs)"
  by (cases xs) simp_all

lemma first_of_concat_map:
  "first_of (concat (map f xs)) =
     (case xs of [] \<Rightarrow> None
      | x # xs' \<Rightarrow> (case first_of (f x) of Some y \<Rightarrow> Some y | None \<Rightarrow> first_of (concat (map f xs'))))"
  by (cases xs) (simp_all add: first_of_append split: option.splits)

lemma first_of_None: "first_of xs = None \<longleftrightarrow> xs = []"
  by (cases xs) simp_all

lemma rx_run_seq_Nil_fun [simp]: "rx_run (seq []) = (\<lambda>st. [st])"
  by (simp add: fun_eq_iff)

lemma rev_upt_Suc_if: "rev [lo..<Suc n] = (if lo \<le> n then n # rev [lo..<n] else [])"
  by simp

lemma first_Grp_Rep_any:
  "first_of (rx_run (Grp n (Rep cs lo None)) (p, s, g)) =
     (let w = takeWhile (cset_ok cs) s in
      if lo \<le> length w then Some (p + length w, dropWhile (cset_ok cs) s, g(n \<mapsto> w)) else None)"
  unfolding rx_run_Grp_Rep_any rev_upt_Suc_if
  by (simp add: Let_def dropWhile_eq_drop [symmetric] takeWhile_eq_take [symmetric])

text \<open>The part \<open>(?P<child_type>[^/]*)/(?P<child_name>[^/]+)\<close> of a child, after its slash.\<close>

definition child_tail :: "groups \<Rightarrow> string \<Rightarrow> (string \<times> groups) option" where
  "child_tail g t =
     (if rest t = [] \<or> seg (tl (rest t)) = [] then None
      else Some (rest (tl (rest t)),
                 g(''child_type'' \<mapsto> seg t, ''child_name'' \<mapsto> seg (tl (rest t)))))"

definition rs_tail :: "rx list" where
  "rs_tail = [Grp ''child_type'' (Rep (NoneOf ''/'') 0 None), lit ''/'',
              Grp ''child_name'' (Rep (NoneOf ''/'') 1 None)]"

lemma first_child_tail:
  "map_option snd (first_of (rx_run (seq rs_tail) (p, t, g))) = child_tail g t"
proof -
  have "rx_run (seq rs_tail) (p, t, g) =
      (if rest t \<noteq> []
       then rx_run (Grp ''child_name'' (Rep (NoneOf ''/'') 1 None))
              (Suc (p + length (seg t)), tl (rest t), g(''child_type'' \<mapsto> seg t))
       else [])"
    unfolding rs_tail_def rx_run_seq_Cons [of "Grp _ _"] seg_then_slash
    by (simp del: rx_run.simps)
  then show ?thesis
    by (simp add: first_Grp_Rep_any cset_ok_NoneOf_slash Let_def child_tail_def seg_def rest_def
        Suc_le_eq del: rx_run.simps)
qed


lemma rx_run_lit_providers:
  "rx_run (lit ''/providers/'') (p, s, g) =
     (if ci_prefix ''/providers/'' s then [(p + 11, drop 11 s, g)] else [])"
proof -
  have "length ''/providers/'' = 11" by simp
  then show ?thesis by (simp only: rx_run_lit)
qed

lemma rx_run_lit_subscriptions:
  "rx_run (lit ''/subscriptions/'') (p, s, g) =
     (if ci_prefix ''/subscriptions/'' s then [(p + 15, drop 15 s, g)] else [])"
proof -
  have "length ''/subscriptions/'' = 15" by simp
  then show ?thesis by (simp only: rx_run_lit)
qed

lemma rx_run_lit_resourceGroups:
  "rx_run (lit ''/resourceGroups/'') (p, s, g) =
     (if ci_prefix ''/resourceGroups/'' s then [(p + 16, drop 16 s, g)] else [])"
proof -
  have "length ''/resourceGroups/'' = 16" by simp
  then show ?thesis by (simp only: rx_run_lit)
qed

text \<open>The first match of \<open>_CHILDREN_RE\<close> at the start of a text: what is left and the groups.\<close>

definition child_first :: "string \<Rightarrow> (string \<times> groups) option" where
  "child_first s =
     (case (if ci_prefix ''/providers/'' s \<and> seg (drop 11 s) \<noteq> [] \<and> rest (drop 11 s) \<noteq> []
            then child_tail [''child_namespace'' \<mapsto> seg (drop 11 s)] (tl (rest (drop 11 s)))
            else None) of
        Some r \<Rightarrow> Some r
      | None \<Rightarrow> (case s of [] \<Rightarrow> None
                 | c # t \<Rightarrow> if c = CHR ''/'' then child_tail Map.empty t else None))"

lemma CHILDREN_RE_eq:
  "CHILDREN_RE = seq (Opt (seq [lit ''/providers/'', Grp ''child_namespace'' (Rep (NoneOf ''/'') 1 None)])
      # lit ''/'' # rs_tail)"
  by (simp add: CHILDREN_RE_def rs_tail_def)

lemma first_CHILDREN_RE:
  "map_option snd (first_of (rx_run CHILDREN_RE (p, s, Map.empty))) = child_first s"
proof -
  let ?K = "rx_run (seq (lit ''/'' # rs_tail))"
  let ?G = "Grp ''child_namespace'' (Rep (NoneOf ''/'') 1 None)"
  let ?s1 = "drop 11 s"
  have pre: "rx_run (seq [lit ''/providers/'', ?G]) (p, s, Map.empty) =
      (if ci_prefix ''/providers/'' s then rx_run ?G (p + 11, ?s1, Map.empty) else [])"
    by (simp add: rx_run_lit_providers del: rx_run.simps ci_prefix.simps)
  have A: "concat (map ?K (rx_run (seq [lit ''/providers/'', ?G]) (p, s, Map.empty))) =
      (if ci_prefix ''/providers/'' s \<and> seg ?s1 \<noteq> [] \<and> rest ?s1 \<noteq> []
       then rx_run (seq rs_tail) (Suc (p + 11 + length (seg ?s1)), tl (rest ?s1),
              [''child_namespace'' \<mapsto> seg ?s1])
       else [])"
  proof (cases "ci_prefix ''/providers/'' s")
    case True
    then show ?thesis
      by (simp only: pre if_True seg_then_slash) (simp add: Suc_le_eq)
  next
    case False
    then show ?thesis by (simp only: pre if_False) simp
  qed
  have B: "?K (p, s, Map.empty) =
      (case s of [] \<Rightarrow> [] | c # t \<Rightarrow> if c = CHR ''/'' then rx_run (seq rs_tail) (Suc p, t, Map.empty) else [])"
    by (cases s) (simp_all del: rx_run.simps)
  have C: "rx_run CHILDREN_RE (p, s, Map.empty) =
      concat (map ?K (rx_run (seq [lit ''/providers/'', ?G]) (p, s, Map.empty))) @ ?K (p, s, Map.empty)"
    unfolding CHILDREN_RE_eq rx_run_seq_Cons [of "Opt _"] by (simp del: rx_run_seq_Cons)
  have fa: "map_option snd (first_of
        (concat (map ?K (rx_run (seq [lit ''/providers/'', ?G]) (p, s, Map.empty))))) =
      (if ci_prefix ''/providers/'' s \<and> seg ?s1 \<noteq> [] \<and> rest ?s1 \<noteq> []
       then child_tail [''child_namespace'' \<mapsto> seg ?s1] (tl (rest ?s1)) else None)"
    by (simp only: A first_child_tail if_distrib [of first_of] if_distrib [of "map_option snd"]
          first_of.simps option.map)
  have fb: "map_option snd (first_of (?K (p, s, Map.empty))) =
      (case s of [] \<Rightarrow> None | c # t \<Rightarrow> if c = CHR ''/'' then child_tail Map.empty t else None)"
    unfolding B by (cases s) (simp_all add: first_child_tail del: rx_run.simps rx_run_seq_Cons)
  have "map_option snd (first_of (rx_run CHILDREN_RE (p, s, Map.empty))) =
      (case map_option snd (first_of
          (concat (map ?K (rx_run (seq [lit ''/providers/'', ?G]) (p, s, Map.empty))))) of
         Some r \<Rightarrow> Some r
       | None \<Rightarrow> map_option snd (first_of (?K (p, s, Map.empty))))"
    unfolding C first_of_append by (simp split: option.splits del: rx_run.simps rx_run_seq_Cons)
  then show ?thesis
    by (simp only: fa fb child_first_def)
qed


lemma length_rest_le: "length (rest s) \<le> length s"
  by (simp add: rest_def length_dropWhile_le)

lemma child_tail_shorter: "child_tail g t = Some (s', g') \<Longrightarrow> length s' < Suc (length t)"
proof -
  assume a: "child_tail g t = Some (s', g')"
  then have s': "s' = rest (tl (rest t))" and ne: "rest t \<noteq> []"
    by (auto simp: child_tail_def split: if_splits)
  have "length s' \<le> length (tl (rest t))" unfolding s' by (rule length_rest_le)
  also have "\<dots> < length (rest t)" using ne by (cases "rest t") simp_all
  also have "\<dots> \<le> length t" by (rule length_rest_le)
  finally show ?thesis by simp
qed

lemma child_first_shorter: "child_first s = Some (s', g) \<Longrightarrow> length s' < length s"
proof -
  assume a: "child_first s = Some (s', g)"
  let ?t = "tl (rest (drop 11 s))"
  have t: "length ?t \<le> length s"
    using length_rest_le [of "drop 11 s"] by simp
  from a consider
    (ns) g0 where "child_tail g0 ?t = Some (s', g)" "rest (drop 11 s) \<noteq> []"
    | (plain) t where "s = CHR ''/'' # t" "child_tail Map.empty t = Some (s', g)"
    by (auto simp: child_first_def split: option.splits if_splits list.splits)
  then show ?thesis
  proof cases
    case ns
    from ns(2) have "length ?t < length (rest (drop 11 s))" by (cases "rest (drop 11 s)") simp_all
    with length_rest_le [of "drop 11 s"] have "Suc (length ?t) \<le> length s" by simp
    with child_tail_shorter [OF ns(1)] show ?thesis by simp
  next
    case plain
    with child_tail_shorter [OF plain(2)] show ?thesis by simp
  qed
qed

text \<open>The matches of \<open>_CHILDREN_RE\<close> that \<open>finditer\<close> yields on a text.\<close>

function child_scan :: "string \<Rightarrow> groups list" where
  "child_scan s =
     (case child_first s of
        None \<Rightarrow> (case s of [] \<Rightarrow> [] | c # cs \<Rightarrow> child_scan cs)
      | Some (s', g) \<Rightarrow> g # child_scan s')"
  by pat_completeness auto
termination
  by (relation "measure length") (auto dest: child_first_shorter)

declare child_scan.simps [simp del]

lemma re_finditer_CHILDREN_RE: "re_finditer CHILDREN_RE p s = child_scan s"
proof (induction s arbitrary: p rule: child_scan.induct)
  case (1 s)
  show ?case
  proof (cases "rx_run CHILDREN_RE (p, s, Map.empty)")
    case Nil
    then have cf: "child_first s = None"
      using first_CHILDREN_RE [of p s] by simp
    show ?thesis
    proof (cases s)
      case Nil
      with cf \<open>rx_run CHILDREN_RE (p, s, Map.empty) = []\<close> show ?thesis
        by (subst re_finditer.simps, subst child_scan.simps) simp
    next
      case (Cons c cs)
      with cf \<open>rx_run CHILDREN_RE (p, s, Map.empty) = []\<close> "1.IH"(1) [OF cf Cons] show ?thesis
        by (subst re_finditer.simps, subst child_scan.simps) simp
    qed
  next
    case (Cons st sts)
    obtain p' s' g where st: "st = (p', s', g)" by (cases st)
    with Cons have cf: "child_first s = Some (s', g)"
      using first_CHILDREN_RE [of p s] by simp
    from child_first_shorter [OF cf] have "length s' < length s" .
    with Cons st cf "1.IH"(2) [OF cf refl] show ?thesis
      by (subst re_finditer.simps, subst child_scan.simps) simp
  qed
qed


lemma first_of_concat_map_total:
  "(\<And>z. f z \<noteq> []) \<Longrightarrow>
   first_of (concat (map f zs)) = (case first_of zs of None \<Rightarrow> None | Some z \<Rightarrow> first_of (f z))"
  by (cases zs) (auto simp: first_of_append first_of_None split: option.splits)

text \<open>The group \<open>(/providers/.../(?P<children>.*))?\<close> of \<open>_ARMID_RE\<close>, when it takes part.\<close>

definition prov_groups :: "groups \<Rightarrow> string \<Rightarrow> groups option" where
  "prov_groups g s =
     (let a = drop 11 s; b = tl (rest a); c = tl (rest b) in
      if ci_prefix ''/providers/'' s \<and> seg a \<noteq> [] \<and> rest a \<noteq> [] \<and> rest b \<noteq> [] \<and> seg c \<noteq> []
      then Some (g(''namespace'' \<mapsto> seg a, ''type'' \<mapsto> seg b, ''name'' \<mapsto> seg c,
                   ''children'' \<mapsto> takeWhile (\<lambda>x. x \<noteq> CHR 0x0A) (rest c)))
      else None)"

definition PROV :: rx where
  "PROV = seq [lit ''/providers/'', Grp ''namespace'' (Rep (NoneOf ''/'') 1 None),
                lit ''/'', Grp ''type'' (Rep (NoneOf ''/'') 0 None),
                lit ''/'', Grp ''name'' (Rep (NoneOf ''/'') 1 None),
                Grp ''children'' (Rep Dot 0 None)]"

definition RG :: rx where
  "RG = seq [lit ''/resourceGroups/'', Grp ''resource_group'' (Rep (NoneOf ''/'') 1 None)]"

lemma rx_run_Grp_children_nonempty:
  "rx_run (seq [Grp ''children'' (Rep Dot 0 None)]) z \<noteq> []"
proof -
  obtain p s g where z: "z = (p, s, g)" by (cases z)
  show ?thesis unfolding z rx_run_seq_Cons rx_run_Grp_Rep_any by simp
qed

lemma cset_ok_Dot: "cset_ok Dot = (\<lambda>x. x \<noteq> CHR 0x0A)"
  by (simp add: fun_eq_iff)

lemma first_name_children:
  "map_option (snd \<circ> snd) (first_of (rx_run
       (seq [Grp ''name'' (Rep (NoneOf ''/'') 1 None), Grp ''children'' (Rep Dot 0 None)]) (p, s, g))) =
     (if seg s = [] then None
      else Some (g(''name'' \<mapsto> seg s, ''children'' \<mapsto> takeWhile (\<lambda>x. x \<noteq> CHR 0x0A) (rest s))))"
proof -
  let ?V = "rx_run (seq [Grp ''children'' (Rep Dot 0 None)])"
  have V: "first_of (?V (q, t, h)) =
      Some (q + length (takeWhile (\<lambda>x. x \<noteq> CHR 0x0A) t), dropWhile (\<lambda>x. x \<noteq> CHR 0x0A) t,
            h(''children'' \<mapsto> takeWhile (\<lambda>x. x \<noteq> CHR 0x0A) t))" for q t h
  proof -
    have "?V (q, t, h) = rx_run (Grp ''children'' (Rep Dot 0 None)) (q, t, h)"
      by (simp del: rx_run.simps)
    then show ?thesis
      by (simp only: first_Grp_Rep_any cset_ok_Dot Let_def) simp
  qed
  have "first_of (rx_run
       (seq [Grp ''name'' (Rep (NoneOf ''/'') 1 None), Grp ''children'' (Rep Dot 0 None)]) (p, s, g)) =
     (case first_of (rx_run (Grp ''name'' (Rep (NoneOf ''/'') 1 None)) (p, s, g)) of
        None \<Rightarrow> None | Some z \<Rightarrow> first_of (?V z))"
    unfolding rx_run_seq_Cons [of "Grp ''name'' _"]
    by (rule first_of_concat_map_total) (rule rx_run_Grp_children_nonempty)
  then show ?thesis
    by (simp only: first_Grp_Rep_any cset_ok_NoneOf_slash Let_def)
       (simp add: V seg_def rest_def Suc_le_eq del: rx_run.simps rx_run_seq_Cons)
qed

lemma seq_seg_slash:
  "rx_run (seq (Grp n (Rep (NoneOf ''/'') lo None) # lit ''/'' # rs)) (p, s, g) =
     (if lo \<le> length (seg s) \<and> rest s \<noteq> []
      then rx_run (seq rs) (Suc (p + length (seg s)), tl (rest s), g(n \<mapsto> seg s)) else [])"
  by (simp only: rx_run_seq_Cons [of "Grp n (Rep (NoneOf ''/'') lo None)"] seg_then_slash)

lemma first_PROV: "map_option (snd \<circ> snd) (first_of (rx_run PROV (p, s, g))) = prov_groups g s"
proof -
  let ?a = "drop 11 s"
  let ?b = "tl (rest ?a)"
  let ?c = "tl (rest ?b)"
  let ?NC = "seq [Grp ''name'' (Rep (NoneOf ''/'') 1 None), Grp ''children'' (Rep Dot 0 None)]"
  have "rx_run PROV (p, s, g) =
      (if ci_prefix ''/providers/'' s \<and> seg ?a \<noteq> [] \<and> rest ?a \<noteq> [] \<and> rest ?b \<noteq> []
       then rx_run ?NC (Suc (Suc (p + 11 + length (seg ?a)) + length (seg ?b)), ?c,
              g(''namespace'' \<mapsto> seg ?a, ''type'' \<mapsto> seg ?b))
       else [])"
  proof (cases "ci_prefix ''/providers/'' s")
    case False
    then show ?thesis
      unfolding PROV_def rx_run_seq_Cons [of "lit ''/providers/''"] rx_run_lit_providers by simp
  next
    case True
    then show ?thesis
      unfolding PROV_def rx_run_seq_Cons [of "lit ''/providers/''"] rx_run_lit_providers
      by (simp only: if_True list.map concat.simps append_Nil2 seq_seg_slash)
         (simp add: Suc_le_eq del: rx_run.simps rx_run_seq_Cons)
  qed
  then show ?thesis
    by (simp only: prov_groups_def Let_def if_distrib [of first_of]
          if_distrib [of "map_option (snd \<circ> snd)"] first_name_children first_of.simps option.map)
       (simp del: rx_run.simps rx_run_seq_Cons)
qed


text \<open>The groups of the match of \<open>_ARMID_RE\<close> at the start of a text.\<close>

definition armid_groups :: "string \<Rightarrow> groups option" where
  "armid_groups x =
     (let s0 = drop 15 x; s1 = rest s0; g1 = [''subscription'' \<mapsto> seg s0];
          rg = (ci_prefix ''/resourceGroups/'' s1 \<and> seg (drop 16 s1) \<noteq> []);
          s2 = (if rg then rest (drop 16 s1) else s1);
          g2 = (if rg then g1(''resource_group'' \<mapsto> seg (drop 16 s1)) else g1)
      in if ci_prefix ''/subscriptions/'' x \<and> seg s0 \<noteq> []
         then Some (case prov_groups g2 s2 of Some g3 \<Rightarrow> g3 | None \<Rightarrow> g2)
         else None)"

lemma ARMID_RE_eq:
  "ARMID_RE = seq [lit ''/subscriptions/'', Grp ''subscription'' (Rep (NoneOf ''/'') 1 None),
                   Opt RG, Opt PROV]"
  by (simp add: ARMID_RE_def RG_def PROV_def)

lemma first_RG:
  "first_of (rx_run RG (p, s, g)) =
     (if ci_prefix ''/resourceGroups/'' s \<and> seg (drop 16 s) \<noteq> []
      then Some (p + 16 + length (seg (drop 16 s)), rest (drop 16 s),
                 g(''resource_group'' \<mapsto> seg (drop 16 s)))
      else None)"
proof -
  have "rx_run RG (p, s, g) =
      (if ci_prefix ''/resourceGroups/'' s
       then rx_run (Grp ''resource_group'' (Rep (NoneOf ''/'') 1 None)) (p + 16, drop 16 s, g)
       else [])"
    unfolding RG_def rx_run_seq_Cons [of "lit _"] rx_run_lit_resourceGroups
    by (simp del: rx_run.simps)
  then show ?thesis
    by (simp only: if_distrib [of first_of] first_Grp_Rep_any cset_ok_NoneOf_slash Let_def
          first_of.simps)
       (simp add: seg_def rest_def Suc_le_eq)
qed

lemma first_Opt_PROV:
  "map_option (snd \<circ> snd) (first_of (rx_run (seq [Opt PROV]) (p, s, g))) =
     Some (case prov_groups g s of Some g3 \<Rightarrow> g3 | None \<Rightarrow> g)"
proof -
  have "rx_run (seq [Opt PROV]) (p, s, g) = rx_run PROV (p, s, g) @ [(p, s, g)]"
    by simp
  then have "first_of (rx_run (seq [Opt PROV]) (p, s, g)) =
      (case first_of (rx_run PROV (p, s, g)) of None \<Rightarrow> Some (p, s, g) | Some y \<Rightarrow> Some y)"
    by (simp only: first_of_append first_of.simps)
  then show ?thesis
    unfolding first_PROV [of p s g, symmetric]
    by (cases "first_of (rx_run PROV (p, s, g))") simp_all
qed

lemma Opt_PROV_nonempty: "rx_run (seq [Opt PROV]) z \<noteq> []"
  by simp

lemma first_Opt_RG_PROV:
  "map_option (snd \<circ> snd) (first_of (rx_run (seq [Opt RG, Opt PROV]) (p, s, g))) =
     (let rg = (ci_prefix ''/resourceGroups/'' s \<and> seg (drop 16 s) \<noteq> []);
          s2 = (if rg then rest (drop 16 s) else s);
          g2 = (if rg then g(''resource_group'' \<mapsto> seg (drop 16 s)) else g)
      in Some (case prov_groups g2 s2 of Some g3 \<Rightarrow> g3 | None \<Rightarrow> g2))"
proof -
  let ?U = "rx_run (seq [Opt PROV])"
  have "rx_run (seq [Opt RG, Opt PROV]) (p, s, g) = concat (map ?U (rx_run RG (p, s, g) @ [(p, s, g)]))"
    unfolding rx_run_seq_Cons [of "Opt RG"] by (simp del: rx_run_seq_Cons)
  moreover have "first_of (concat (map ?U zs)) =
      (case first_of zs of None \<Rightarrow> None | Some z \<Rightarrow> first_of (?U z))" for zs
    by (rule first_of_concat_map_total) (rule Opt_PROV_nonempty)
  ultimately have "first_of (rx_run (seq [Opt RG, Opt PROV]) (p, s, g)) =
      (case first_of (rx_run RG (p, s, g) @ [(p, s, g)]) of None \<Rightarrow> None | Some z \<Rightarrow> first_of (?U z))"
    by (simp only:)
  then have E: "first_of (rx_run (seq [Opt RG, Opt PROV]) (p, s, g)) =
      first_of (?U (case first_of (rx_run RG (p, s, g)) of None \<Rightarrow> (p, s, g) | Some z \<Rightarrow> z))"
    by (cases "first_of (rx_run RG (p, s, g))") (simp_all only: first_of_append option.case first_of.simps)
  show ?thesis
  proof (cases "ci_prefix ''/resourceGroups/'' s \<and> seg (drop 16 s) \<noteq> []")
    case True
    then show ?thesis
      unfolding E first_RG by (simp only: simp_thms if_True option.case first_Opt_PROV Let_def)
  next
    case False
    then show ?thesis
      unfolding E first_RG by (simp only: simp_thms if_False option.case first_Opt_PROV Let_def)
  qed
qed


lemma Opt_RG_PROV_nonempty: "rx_run (seq [Opt RG, Opt PROV]) z \<noteq> []"
  by (simp add: concat_map_eq_Nil)

lemma re_match_ARMID_RE: "re_match ARMID_RE x = armid_groups x"
proof -
  let ?T = "rx_run (seq [Opt RG, Opt PROV])"
  let ?G = "Grp ''subscription'' (Rep (NoneOf ''/'') 1 None)"
  let ?s0 = "drop 15 x"
  have m: "re_match ARMID_RE x = map_option (snd \<circ> snd) (first_of (rx_run ARMID_RE (0, x, Map.empty)))"
    by (simp add: re_match_def split: list.splits)
  have run: "rx_run ARMID_RE (0, x, Map.empty) =
      (if ci_prefix ''/subscriptions/'' x then concat (map ?T (rx_run ?G (15, ?s0, Map.empty))) else [])"
    unfolding ARMID_RE_eq rx_run_seq_Cons [of "lit _"] rx_run_lit_subscriptions
      rx_run_seq_Cons [of ?G]
    by (simp del: rx_run.simps rx_run_seq_Cons)
  have tot: "first_of (concat (map ?T zs)) =
      (case first_of zs of None \<Rightarrow> None | Some z \<Rightarrow> first_of (?T z))" for zs
    by (rule first_of_concat_map_total) (rule Opt_RG_PROV_nonempty)
  show ?thesis
  proof (cases "ci_prefix ''/subscriptions/'' x \<and> seg ?s0 \<noteq> []")
    case True
    then have "first_of (rx_run ?G (15, ?s0, Map.empty)) =
        Some (15 + length (seg ?s0), rest ?s0, [''subscription'' \<mapsto> seg ?s0])"
      by (simp only: first_Grp_Rep_any cset_ok_NoneOf_slash Let_def)
         (simp add: seg_def rest_def Suc_le_eq)
    moreover from True have "rx_run ARMID_RE (0, x, Map.empty) =
        concat (map ?T (rx_run ?G (15, ?s0, Map.empty)))"
      by (simp only: run if_True)
    ultimately have "first_of (rx_run ARMID_RE (0, x, Map.empty)) =
        first_of (?T (15 + length (seg ?s0), rest ?s0, [''subscription'' \<mapsto> seg ?s0]))"
      by (simp only: tot option.case)
    with True show ?thesis
      unfolding m
      by (simp only: first_Opt_RG_PROV armid_groups_def Let_def simp_thms if_True)
  next
    case False
    have "rx_run ARMID_RE (0, x, Map.empty) = []"
    proof (cases "ci_prefix ''/subscriptions/'' x")
      case False
      then show ?thesis by (simp only: run if_False)
    next
      case True
      with False have "seg ?s0 = []" by simp
      then have "first_of (rx_run ?G (15, ?s0, Map.empty)) = None"
        by (simp only: first_Grp_Rep_any cset_ok_NoneOf_slash Let_def) (simp add: seg_def)
      then have "rx_run ?G (15, ?s0, Map.empty) = []" by (simp only: first_of_None)
      with True show ?thesis by (simp only: run if_True list.map concat.simps)
    qed
    with False show ?thesis
      unfolding m by (simp add: armid_groups_def Let_def del: ci_prefix.simps)
  qed
qed

section \<open>The dictionary that parse_resource_id builds\<close>

lemma groupdict_lookup:
  "fmlookup (groupdict ns m) k = (if k \<in> set ns then Some (group_val m k) else None)"
proof -
  have "fmlookup (fold (\<lambda>n d. fmupd n (group_val m n) d) ns d0) k =
      (if k \<in> set ns then Some (group_val m k) else fmlookup d0 k)" for d0
    by (induction ns arbitrary: d0) auto
  then show ?thesis by (simp add: groupdict_def)
qed

text \<open>The three keys that the loop of \<open>parse_resource_id\<close> writes for the child at level \<open>i\<close>.\<close>

definition child_keys :: "nat \<Rightarrow> string set" where
  "child_keys i = {''child_namespace_'' @ show_nat i, ''child_type_'' @ show_nat i,
                   ''child_name_'' @ show_nat i}"

definition child_upd :: "nat \<Rightarrow> groups \<Rightarrow> dict \<Rightarrow> dict" where
  "child_upd i c d =
     fmupd (''child_name_'' @ show_nat i) (group_val c ''child_name'')
       (fmupd (''child_type_'' @ show_nat i) (group_val c ''child_type'')
          (fmupd (''child_namespace_'' @ show_nat i) (group_val c ''child_namespace'') d))"

lemma children_loop_Cons:
  "children_loop ((count, child) # more) (result, c) =
     children_loop more (child_upd (Suc count) child result, Some count)"
  by (simp add: CHILDREN_groups_def child_upd_def)

lemma zip_upt_Cons: "zip [j..<j + Suc n] (x # xs) = (j, x) # zip [Suc j..<Suc j + n] xs"
  by (simp add: upt_conv_Cons)

lemma child_upd_other: "k \<notin> child_keys i \<Longrightarrow> fmlookup (child_upd i c d) k = fmlookup d k"
  by (auto simp: child_upd_def child_keys_def)

lemma child_keys_disjoint: "i \<noteq> j \<Longrightarrow> k \<in> child_keys i \<Longrightarrow> k \<notin> child_keys j"
  by (auto simp: child_keys_def)

lemma children_loop_count:
  "snd (children_loop (zip [j..<j + length cs] cs) (d, c)) =
     (if cs = [] then c else Some (j + length cs - 1))"
proof (induction cs arbitrary: j d c)
  case Nil
  show ?case by simp
next
  case (Cons x xs)
  show ?case
    using Cons.IH [of "Suc j" "child_upd (Suc j) x d" "Some j"]
    by (simp only: length_Cons zip_upt_Cons children_loop_Cons) (simp split: if_splits)
qed

lemma children_loop_other:
  "(\<And>i. j < i \<Longrightarrow> i \<le> j + length cs \<Longrightarrow> k \<notin> child_keys i) \<Longrightarrow>
   fmlookup (fst (children_loop (zip [j..<j + length cs] cs) (d, c))) k = fmlookup d k"
proof (induction cs arbitrary: j d c)
  case Nil
  show ?case by simp
next
  case (Cons x xs)
  have "fmlookup (fst (children_loop (zip [Suc j..<Suc j + length xs] xs)
           (child_upd (Suc j) x d, Some j))) k = fmlookup (child_upd (Suc j) x d) k"
    by (rule Cons.IH) (use Cons.prems in simp)
  also have "\<dots> = fmlookup d k"
    by (rule child_upd_other) (use Cons.prems in simp)
  finally show ?case
    by (simp only: length_Cons zip_upt_Cons children_loop_Cons)
qed

lemma children_loop_child:
  "base \<in> set CHILDREN_groups \<Longrightarrow> j < i \<Longrightarrow> i \<le> j + length cs \<Longrightarrow>
   fmlookup (fst (children_loop (zip [j..<j + length cs] cs) (d, c))) (base @ ''_'' @ show_nat i) =
     Some (group_val (cs ! (i - Suc j)) base)"
proof (induction cs arbitrary: j d c)
  case Nil
  then show ?case by simp
next
  case (Cons x xs)
  let ?d1 = "child_upd (Suc j) x d"
  let ?k = "base @ ''_'' @ show_nat i"
  have step: "children_loop (zip [j..<j + length (x # xs)] (x # xs)) (d, c) =
      children_loop (zip [Suc j..<Suc j + length xs] xs) (?d1, Some j)"
    by (simp only: length_Cons zip_upt_Cons children_loop_Cons)
  show ?case
  proof (cases "i = Suc j")
    case True
    have "fmlookup (fst (children_loop (zip [Suc j..<Suc j + length xs] xs) (?d1, Some j))) ?k =
        fmlookup ?d1 ?k"
    proof (rule children_loop_other)
      fix i' assume "Suc j < i'" "i' \<le> Suc j + length xs"
      then have "i' \<noteq> i" using True by simp
      then show "?k \<notin> child_keys i'"
        using Cons.prems(1) by (auto simp: child_keys_def CHILDREN_groups_def)
    qed
    also have "\<dots> = Some (group_val x base)"
      using True Cons.prems(1) by (auto simp: child_upd_def CHILDREN_groups_def)
    finally show ?thesis unfolding step using True by simp
  next
    case False
    with Cons.prems have "Suc j < i" "i \<le> Suc j + length xs" by simp_all
    from Cons.IH [OF Cons.prems(1) this, of ?d1 "Some j"]
    have "fmlookup (fst (children_loop (zip [Suc j..<Suc j + length xs] xs) (?d1, Some j))) ?k =
        Some (group_val (xs ! (i - Suc (Suc j))) base)" .
    moreover have "(x # xs) ! (i - Suc j) = xs ! (i - Suc (Suc j))"
      using \<open>Suc j < i\<close> by (simp add: nth_Cons')
    ultimately show ?thesis unfolding step by simp
  qed
qed


text \<open>
  The pieces of a parent path: the \<open>providers/{child_namespace_i}/\<close> segment of level \<open>i\<close>
  (empty when the level has no namespace), its \<open>{child_type_i}/{child_name_i}/\<close> segment,
  and the accumulator that starts as \<open>r\<close> at level \<open>a\<close> as level \<open>j\<close> records it: every
  level before \<open>j\<close> in full, and of level \<open>j\<close> only the provider segment.
\<close>

definition provider_seg :: "dict \<Rightarrow> nat \<Rightarrow> string" where
  "provider_seg kw i =
     (if dict_get kw (''child_namespace_'' @ show_nat i) \<noteq> VNone
      then ''providers/'' @ str_of_val (dict_get kw (''child_namespace_'' @ show_nat i)) @ ''/''
      else [])"

definition type_name_seg :: "dict \<Rightarrow> nat \<Rightarrow> string" where
  "type_name_seg kw i =
     str_of_val (dict_get kw (''child_type_'' @ show_nat i)) @ ''/'' @
     str_of_val (dict_get kw (''child_name_'' @ show_nat i)) @ ''/''"

definition parent_acc :: "dict \<Rightarrow> string \<Rightarrow> nat \<Rightarrow> nat \<Rightarrow> string" where
  "parent_acc kw r a j =
     r @ concat (map (\<lambda>i. provider_seg kw i @ type_name_seg kw i) [a..<j]) @ provider_seg kw j"

definition parent_key :: "nat \<Rightarrow> string" where
  "parent_key i = ''child_parent_'' @ show_nat i"

lemma parent_key_inj [simp]: "parent_key i = parent_key j \<longleftrightarrow> i = j"
  by (simp add: parent_key_def)

text \<open>Writing a \<open>child_parent\<close> key changes none of the segments.\<close>

lemma segs_upd_parent [simp]:
  "provider_seg (fmupd (parent_key a) v kw) i = provider_seg kw i"
  "type_name_seg (fmupd (parent_key a) v kw) i = type_name_seg kw i"
  by (simp_all add: provider_seg_def type_name_seg_def dict_get_def parent_key_def)

lemma parent_acc_upd_parent [simp]:
  "parent_acc (fmupd (parent_key a) v kw) r b j = parent_acc kw r b j"
  by (simp add: parent_acc_def)

lemma format_type_name:
  "kt \<in> fmdom' kw \<Longrightarrow> kn \<in> fmdom' kw \<Longrightarrow>
   format [Fld kt, Txt ''/'', Fld kn, Txt ''/''] kw =
     Inr (str_of_val (dict_get kw kt) @ ''/'' @ str_of_val (dict_get kw kn) @ ''/'')"
  by (auto simp: bindE_def dict_getitem_def dict_get_def fmlookup_dom'_iff)

lemma parent_acc_step:
  "a < j \<Longrightarrow> parent_acc kw (r @ provider_seg kw a @ type_name_seg kw a) (Suc a) j = parent_acc kw r a j"
  by (simp add: parent_acc_def upt_conv_Cons)

lemma parents_loop_eq:
  assumes "\<And>i. a \<le> i \<Longrightarrow> i < b \<Longrightarrow>
      ''child_type_'' @ show_nat i \<in> fmdom' kw \<and> ''child_name_'' @ show_nat i \<in> fmdom' kw"
  shows "\<exists>kw' pb'. parents_loop [a..<b] (kw, pb) = Inr (kw', pb')
      \<and> concat pb' = concat pb @ concat (map (\<lambda>i. provider_seg kw i @ type_name_seg kw i) [a..<b])
      \<and> (\<forall>i. a \<le> i \<and> i < b \<longrightarrow> fmlookup kw' (parent_key i) = Some (VStr (parent_acc kw (concat pb) a i)))
      \<and> (\<forall>k. (\<forall>i. a \<le> i \<and> i < b \<longrightarrow> k \<noteq> parent_key i) \<longrightarrow> fmlookup kw' k = fmlookup kw k)"
  using assms
proof (induction "b - a" arbitrary: a kw pb)
  case 0
  then have "b \<le> a" by simp
  then show ?case by auto
next
  case (Suc n)
  then have ab: "a < b" by simp
  then have up: "[a..<b] = a # [Suc a..<b]" by (simp add: upt_conv_Cons)
  let ?pb1 = "if dict_get kw (''child_namespace_'' @ show_nat a) \<noteq> VNone
      then pb @ [''providers/'' @ str_of_val (dict_get kw (''child_namespace_'' @ show_nat a)) @ ''/'']
      else pb"
  let ?kw1 = "fmupd (parent_key a) (VStr (concat ?pb1)) kw"
  let ?s = "type_name_seg kw a"
  have c1: "concat ?pb1 = concat pb @ provider_seg kw a"
    by (simp add: provider_seg_def)
  have dom1: "''child_type_'' @ show_nat i \<in> fmdom' ?kw1 \<and> ''child_name_'' @ show_nat i \<in> fmdom' ?kw1"
    if "Suc a \<le> i" "i < b" for i
    using Suc.prems [of i] that by simp
  have fmt: "format [Fld (''child_type_'' @ show_nat a), Txt ''/'',
                     Fld (''child_name_'' @ show_nat a), Txt ''/''] ?kw1 = Inr ?s"
  proof -
    have "''child_type_'' @ show_nat a \<in> fmdom' ?kw1" "''child_name_'' @ show_nat a \<in> fmdom' ?kw1"
      using Suc.prems [of a] ab by simp_all
    from format_type_name [OF this] show ?thesis
      by (simp add: type_name_seg_def dict_get_def parent_key_def)
  qed
  have step: "parents_loop [a..<b] (kw, pb) = parents_loop [Suc a..<b] (?kw1, ?pb1 @ [?s])"
    unfolding up parents_loop.simps Let_def parent_key_def [symmetric]
    by (simp only: fmt bindE_def sum.case)
  from Suc.hyps(2) have n: "n = b - Suc a" by simp
  from Suc.hyps(1) [OF n dom1, of "?pb1 @ [?s]"]
  obtain kw' pb' where
    r: "parents_loop [Suc a..<b] (?kw1, ?pb1 @ [?s]) = Inr (kw', pb')"
    and cc: "concat pb' = concat (?pb1 @ [?s]) @
        concat (map (\<lambda>i. provider_seg ?kw1 i @ type_name_seg ?kw1 i) [Suc a..<b])"
    and pk: "\<And>i. Suc a \<le> i \<Longrightarrow> i < b \<Longrightarrow>
        fmlookup kw' (parent_key i) = Some (VStr (parent_acc ?kw1 (concat (?pb1 @ [?s])) (Suc a) i))"
    and fr: "\<And>k. (\<And>i. Suc a \<le> i \<Longrightarrow> i < b \<Longrightarrow> k \<noteq> parent_key i) \<Longrightarrow>
        fmlookup kw' k = fmlookup ?kw1 k"
    by blast
  have cpb: "concat (?pb1 @ [?s]) = concat pb @ provider_seg kw a @ type_name_seg kw a"
    using c1 by simp
  have A: "concat pb' = concat pb @ concat (map (\<lambda>i. provider_seg kw i @ type_name_seg kw i) [a..<b])"
    unfolding cc cpb up by simp
  have B: "fmlookup kw' (parent_key i) = Some (VStr (parent_acc kw (concat pb) a i))"
    if "a \<le> i" "i < b" for i
  proof (cases "i = a")
    case True
    have "fmlookup kw' (parent_key a) = fmlookup ?kw1 (parent_key a)"
      by (rule fr) simp
    also have "\<dots> = Some (VStr (concat pb @ provider_seg kw a))"
      using c1 by simp
    finally show ?thesis using True by (simp add: parent_acc_def)
  next
    case False
    with that have i: "Suc a \<le> i" "a < i" by simp_all
    from pk [OF i(1) that(2)] show ?thesis
      unfolding cpb by (simp add: parent_acc_step [OF i(2)])
  qed
  have C: "fmlookup kw' k = fmlookup kw k" if "\<And>i. a \<le> i \<Longrightarrow> i < b \<Longrightarrow> k \<noteq> parent_key i" for k
  proof -
    have "fmlookup kw' k = fmlookup ?kw1 k"
      by (rule fr) (use that in simp)
    also have "\<dots> = fmlookup kw k"
      using that [of a] ab by simp
    finally show ?thesis .
  qed
  from r A B C show ?case unfolding step by blast
qed

lemma fold_upd_other:
  "(\<And>i. i \<in> set js \<Longrightarrow> k \<noteq> K i) \<Longrightarrow>
   fmlookup (fold (\<lambda>i d. fmupd (K i) (V i) d) js d0) k = fmlookup d0 k"
  by (induction js arbitrary: d0) auto

lemma fold_upd_key:
  "i \<in> set js \<Longrightarrow> inj K \<Longrightarrow>
   fmlookup (fold (\<lambda>i d. fmupd (K i) (V i) d) js d0) (K i) = Some (V i)"
proof (induction js arbitrary: d0 rule: rev_induct)
  case Nil
  then show ?case by simp
next
  case (snoc j js)
  then show ?case by (auto simp: inj_eq)
qed

text \<open>A dictionary with the \<open>child_parent\<close> keys of the levels 1 to \<open>n\<close> written.\<close>

definition with_parents :: "dict \<Rightarrow> string \<Rightarrow> nat \<Rightarrow> dict" where
  "with_parents kw root n =
     fold (\<lambda>i d. fmupd (parent_key i) (VStr (parent_acc kw root 1 i)) d) [1..<Suc n] kw"

lemma inj_parent_key: "inj parent_key"
  by (simp add: inj_def)

lemma with_parents_key:
  "1 \<le> i \<Longrightarrow> i \<le> n \<Longrightarrow>
   fmlookup (with_parents kw root n) (parent_key i) = Some (VStr (parent_acc kw root 1 i))"
  unfolding with_parents_def
  by (rule fold_upd_key [where K = parent_key, OF _ inj_parent_key]) auto

lemma with_parents_other:
  assumes "\<And>i. 1 \<le> i \<Longrightarrow> i \<le> n \<Longrightarrow> k \<noteq> parent_key i"
  shows "fmlookup (with_parents kw root n) k = fmlookup kw k"
  unfolding with_parents_def
proof (rule fold_upd_other)
  fix i assume "i \<in> set [1..<Suc n]"
  then have "1 \<le> i" "i \<le> n" by auto
  then show "k \<noteq> parent_key i" by (rule assms)
qed

lemma child_parent_fold: "''child_parent_'' @ show_nat n = parent_key n"
  by (simp add: parent_key_def)

lemma show_int_nat [simp]: "show_int (int n) = show_nat n"
  by (simp add: show_int_def)

lemma get_parents_no_children:
  assumes "fmlookup kw ''last_child_num'' = Some VNone" and "fmlookup kw ''name'' = Some nv"
  shows "get_parents_from_parts kw =
     Inr (fmupd ''resource_parent'' (if truthy nv then VStr [] else VNone) kw)"
  using assms by (simp add: get_parents_from_parts_def bindE_def dict_getitem_def)

lemma get_parents_children:
  assumes lcn: "fmlookup kw ''last_child_num'' = Some (VInt (int n))" and n: "0 < n"
    and ty: "fmlookup kw ''type'' = Some tv" and nm: "fmlookup kw ''name'' = Some nv"
    and ch: "\<And>i. 1 \<le> i \<Longrightarrow> i < n \<Longrightarrow>
      ''child_type_'' @ show_nat i \<in> fmdom' kw \<and> ''child_name_'' @ show_nat i \<in> fmdom' kw"
  shows "get_parents_from_parts kw =
     Inr (fmupd ''resource_parent''
            (if truthy nv then VStr (parent_acc kw (str_of_val tv @ ''/'' @ str_of_val nv @ ''/'') 1 n)
             else VNone)
            (with_parents kw (str_of_val tv @ ''/'' @ str_of_val nv @ ''/'') n))"
proof -
  let ?root = "str_of_val tv @ ''/'' @ str_of_val nv @ ''/''"
  have fmt: "format [Fld ''type'', Txt ''/'', Fld ''name'', Txt ''/''] kw = Inr ?root"
    using ty nm by (simp add: bindE_def dict_getitem_def)
  from parents_loop_eq [of 1 n kw "[?root]"] ch
  obtain kw1 pb1 where
    r: "parents_loop [1..<n] (kw, [?root]) = Inr (kw1, pb1)"
    and cc: "concat pb1 = ?root @ concat (map (\<lambda>i. provider_seg kw i @ type_name_seg kw i) [1..<n])"
    and pk: "\<And>i. 1 \<le> i \<Longrightarrow> i < n \<Longrightarrow>
        fmlookup kw1 (parent_key i) = Some (VStr (parent_acc kw ?root 1 i))"
    and fr: "\<And>k. (\<And>i. 1 \<le> i \<Longrightarrow> i < n \<Longrightarrow> k \<noteq> parent_key i) \<Longrightarrow>
        fmlookup kw1 k = fmlookup kw k"
    by auto
  have l1: "fmlookup kw1 ''last_child_num'' = Some (VInt (int n))"
    using fr [of "''last_child_num''"] lcn by (simp add: parent_key_def)
  have ns1: "dict_get kw1 (''child_namespace_'' @ show_nat n) = dict_get kw (''child_namespace_'' @ show_nat n)"
    using fr [of "''child_namespace_'' @ show_nat n"] by (simp add: parent_key_def dict_get_def)
  have nm1: "fmlookup kw1 ''name'' = Some nv"
    using fr [of "''name''"] nm by (simp add: parent_key_def)
  let ?pb2 = "if dict_get kw (''child_namespace_'' @ show_nat n) \<noteq> VNone
      then pb1 @ [''providers/'' @ str_of_val (dict_get kw (''child_namespace_'' @ show_nat n)) @ ''/'']
      else pb1"
  have c2: "concat ?pb2 = parent_acc kw ?root 1 n"
    by (simp add: cc parent_acc_def provider_seg_def)
  let ?kw2 = "fmupd (parent_key n) (VStr (parent_acc kw ?root 1 n)) kw1"
  have eq2: "?kw2 = with_parents kw ?root n"
  proof (rule fmap_ext)
    fix k
    show "fmlookup ?kw2 k = fmlookup (with_parents kw ?root n) k"
    proof (cases "\<exists>i. 1 \<le> i \<and> i \<le> n \<and> k = parent_key i")
      case True
      then obtain i where i: "1 \<le> i" "i \<le> n" "k = parent_key i" by blast
      then show ?thesis
        using pk [of i] by (cases "i = n") (simp_all add: with_parents_key)
    next
      case False
      then have o: "\<And>i. 1 \<le> i \<Longrightarrow> i \<le> n \<Longrightarrow> k \<noteq> parent_key i" by blast
      then have "k \<noteq> parent_key n" using n by simp
      moreover have "fmlookup kw1 k = fmlookup kw k" by (rule fr) (use o in simp)
      ultimately show ?thesis by (simp add: with_parents_other [OF o])
    qed
  qed
  have nm2: "fmlookup (fmupd (parent_key n) v kw1) ''name'' = Some nv" for v
    using nm1 by (simp add: parent_key_def)
  have "get_parents_from_parts kw =
      Inr (fmupd ''resource_parent'' (if truthy nv then VStr (concat ?pb2) else VNone)
            (fmupd (parent_key n) (VStr (concat ?pb2)) kw1))"
    unfolding get_parents_from_parts_def
    by (simp only: lcn fmt r l1 ns1 nm2 bindE_def dict_getitem_def Let_def parent_key_def [symmetric]
          option.case sum.case prod.case py_range1.simps nat_int val.distinct if_True simp_thms
          str_of_val.simps show_int_nat child_parent_fold)
  then show ?thesis unfolding c2 eq2 .
qed

text \<open>
  The text that \<open>finditer\<close> scans, and the dictionary \<open>result\<close> as it is passed to
  \<open>_populate_alternate_kwargs\<close>, for the groups \<open>m\<close> of the root match and the list \<open>cs\<close>
  of child matches.
\<close>

definition children_text :: "groups \<Rightarrow> string" where
  "children_text m = (case m ''children'' of None \<Rightarrow> [] | Some s \<Rightarrow> s)"

definition parsed_raw :: "groups \<Rightarrow> groups list \<Rightarrow> dict" where
  "parsed_raw m cs =
     fmupd ''last_child_num'' (if cs = [] then VNone else VInt (int (length cs)))
       (fst (children_loop (zip [0..<length cs] cs) (groupdict ARMID_groups m, None)))"

lemma raw_group:
  "g \<in> set ARMID_groups \<Longrightarrow> fmlookup (parsed_raw m cs) g = Some (group_val m g)"
proof -
  assume g: "g \<in> set ARMID_groups"
  then have "g \<noteq> ''last_child_num''" by (auto simp: ARMID_groups_def)
  moreover have "fmlookup (fst (children_loop (zip [0..<0 + length cs] cs) (groupdict ARMID_groups m, None))) g
      = fmlookup (groupdict ARMID_groups m) g"
    by (rule children_loop_other) (use g in \<open>auto simp: ARMID_groups_def child_keys_def\<close>)
  ultimately show ?thesis using g by (simp add: parsed_raw_def groupdict_lookup)
qed

lemma raw_lcn:
  "fmlookup (parsed_raw m cs) ''last_child_num'' =
     Some (if cs = [] then VNone else VInt (int (length cs)))"
  by (simp add: parsed_raw_def)

lemma raw_child:
  assumes "base \<in> set CHILDREN_groups" "1 \<le> i" "i \<le> length cs"
  shows "fmlookup (parsed_raw m cs) (base @ ''_'' @ show_nat i) = Some (group_val (cs ! (i - 1)) base)"
proof -
  from assms(1) have "base @ ''_'' @ show_nat i \<noteq> ''last_child_num''"
    by (auto simp: CHILDREN_groups_def)
  moreover have "fmlookup (fst (children_loop (zip [0..<0 + length cs] cs) (groupdict ARMID_groups m, None)))
      (base @ ''_'' @ show_nat i) = Some (group_val (cs ! (i - Suc 0)) base)"
    by (rule children_loop_child) (use assms in auto)
  ultimately show ?thesis by (simp add: parsed_raw_def)
qed

lemma raw_other:
  assumes "k \<notin> set ARMID_groups" "k \<noteq> ''last_child_num''"
    and "\<And>i. 1 \<le> i \<Longrightarrow> i \<le> length cs \<Longrightarrow> k \<notin> child_keys i"
  shows "fmlookup (parsed_raw m cs) k = None"
proof -
  have "fmlookup (fst (children_loop (zip [0..<0 + length cs] cs) (groupdict ARMID_groups m, None))) k
      = fmlookup (groupdict ARMID_groups m) k"
    by (rule children_loop_other) (use assms(3) in auto)
  with assms(1,2) show ?thesis by (simp add: parsed_raw_def groupdict_lookup)
qed

lemma raw_child_simps:
  assumes "1 \<le> i" "i \<le> length cs"
  shows "fmlookup (parsed_raw m cs) (''child_namespace_'' @ show_nat i) =
           Some (group_val (cs ! (i - 1)) ''child_namespace'')"
    and "fmlookup (parsed_raw m cs) (''child_type_'' @ show_nat i) =
           Some (group_val (cs ! (i - 1)) ''child_type'')"
    and "fmlookup (parsed_raw m cs) (''child_name_'' @ show_nat i) =
           Some (group_val (cs ! (i - 1)) ''child_name'')"
  using raw_child [of "''child_namespace''" i cs m] raw_child [of "''child_type''" i cs m]
    raw_child [of "''child_name''" i cs m] assms
  by (simp_all add: CHILDREN_groups_def)

lemma raw_child_absent:
  assumes "i = 0 \<or> length cs < i"
  shows "fmlookup (parsed_raw m cs) (''child_namespace_'' @ show_nat i) = None"
    and "fmlookup (parsed_raw m cs) (''child_type_'' @ show_nat i) = None"
    and "fmlookup (parsed_raw m cs) (''child_name_'' @ show_nat i) = None"
  using assms by (auto intro!: raw_other simp: ARMID_groups_def child_keys_def)


text \<open>
  The value of \<open>d.get(child_key) or d[root_key]\<close> in \<open>_populate_alternate_kwargs\<close>: the
  group \<open>base\<close> of the last child when there is one and its value is truthy, the root's
  group \<open>g\<close> otherwise.
\<close>

definition pick :: "groups \<Rightarrow> groups list \<Rightarrow> string \<Rightarrow> string \<Rightarrow> val" where
  "pick m cs base g =
     (if cs \<noteq> [] \<and> truthy (group_val (last cs) base) then group_val (last cs) base
      else group_val m g)"

definition root_seg :: "groups \<Rightarrow> string" where
  "root_seg m = str_of_val (group_val m ''type'') @ ''/'' @ str_of_val (group_val m ''name'') @ ''/''"

text \<open>The dictionary that \<open>_populate_alternate_kwargs\<close> returns.\<close>

definition parsed_full :: "groups \<Rightarrow> groups list \<Rightarrow> dict" where
  "parsed_full m cs =
     fmupd ''resource_name'' (pick m cs ''child_name'' ''name'')
    (fmupd ''resource_type'' (pick m cs ''child_type'' ''type'')
    (fmupd ''resource_namespace'' (group_val m ''namespace'')
    (fmupd ''resource_parent''
       (if truthy (group_val m ''name'')
        then VStr (if cs = [] then [] else parent_acc (parsed_raw m cs) (root_seg m) 1 (length cs))
        else VNone)
    (with_parents (parsed_raw m cs) (root_seg m) (length cs)))))"

lemma with_parents_0 [simp]: "with_parents kw root 0 = kw"
  by (simp add: with_parents_def)

lemma get_parents_parsed_raw:
  "get_parents_from_parts (parsed_raw m cs) =
     Inr (fmupd ''resource_parent''
       (if truthy (group_val m ''name'')
        then VStr (if cs = [] then [] else parent_acc (parsed_raw m cs) (root_seg m) 1 (length cs))
        else VNone)
       (with_parents (parsed_raw m cs) (root_seg m) (length cs)))"
proof (cases "cs = []")
  case True
  have "fmlookup (parsed_raw m cs) ''last_child_num'' = Some VNone"
    using True by (simp add: raw_lcn)
  moreover have "fmlookup (parsed_raw m cs) ''name'' = Some (group_val m ''name'')"
    by (rule raw_group) (simp add: ARMID_groups_def)
  ultimately show ?thesis
    using True by (simp add: get_parents_no_children)
next
  case False
  have l: "fmlookup (parsed_raw m cs) ''last_child_num'' = Some (VInt (int (length cs)))"
    using False by (simp add: raw_lcn)
  have n: "0 < length cs" using False by simp
  have ty: "fmlookup (parsed_raw m cs) ''type'' = Some (group_val m ''type'')"
    by (rule raw_group) (simp add: ARMID_groups_def)
  have nm: "fmlookup (parsed_raw m cs) ''name'' = Some (group_val m ''name'')"
    by (rule raw_group) (simp add: ARMID_groups_def)
  have ch: "''child_type_'' @ show_nat i \<in> fmdom' (parsed_raw m cs) \<and>
      ''child_name_'' @ show_nat i \<in> fmdom' (parsed_raw m cs)" if "1 \<le> i" "i < length cs" for i
    using raw_child_simps(2,3) [of i cs m] that by (simp add: fmlookup_dom'_iff)
  from get_parents_children [OF l n ty nm ch] False show ?thesis
    by (simp add: root_seg_def)
qed

lemma last_conv_nth': "cs \<noteq> [] \<Longrightarrow> cs ! (length cs - 1) = last cs"
  by (simp add: last_conv_nth)

lemma get_or_getitem_parsed_raw:
  assumes "base \<in> {''child_type'', ''child_name''}" "g \<in> set ARMID_groups"
  shows "get_or_getitem (parsed_raw m cs)
      (base @ ''_'' @ str_of_val (if cs = [] then VNone else VInt (int (length cs)))) g =
     Inr (pick m cs base g)"
proof (cases "cs = []")
  case True
  have "fmlookup (parsed_raw m cs) (base @ ''_None'') = None"
    using assms(1) by (intro raw_other) (auto simp: ARMID_groups_def child_keys_def True)
  then show ?thesis
    using True raw_group [OF assms(2), of m cs]
    by (simp add: get_or_getitem_def dict_get_def dict_getitem_def pick_def)
next
  case False
  then have n: "1 \<le> length cs" by (cases cs) simp_all
  have "base \<in> set CHILDREN_groups" using assms(1) by (auto simp: CHILDREN_groups_def)
  from raw_child [OF this n le_refl, of m]
  have "fmlookup (parsed_raw m cs) (base @ ''_'' @ show_nat (length cs)) =
      Some (group_val (last cs) base)"
    using False by (simp add: last_conv_nth)
  then show ?thesis
    using False raw_group [OF assms(2), of m cs]
    by (simp add: get_or_getitem_def dict_get_def dict_getitem_def pick_def)
qed

lemma populate_parsed_raw:
  "populate_alternate_kwargs (parsed_raw m cs) = Inr (parsed_full m cs)"
proof -
  have ns: "dict_getitem (parsed_raw m cs) ''namespace'' = Inr (group_val m ''namespace'')"
    using raw_group [of "''namespace''" m cs] by (simp add: dict_getitem_def ARMID_groups_def)
  have l: "dict_getitem (parsed_raw m cs) ''last_child_num'' =
      Inr (if cs = [] then VNone else VInt (int (length cs)))"
    by (simp add: dict_getitem_def raw_lcn)
  have t: "get_or_getitem (parsed_raw m cs)
      (''child_type_'' @ str_of_val (if cs = [] then VNone else VInt (int (length cs)))) ''type'' =
      Inr (pick m cs ''child_type'' ''type'')"
    using get_or_getitem_parsed_raw [of "''child_type''" "''type''" m cs]
    by (simp add: ARMID_groups_def)
  have n: "get_or_getitem (parsed_raw m cs)
      (''child_name_'' @ str_of_val (if cs = [] then VNone else VInt (int (length cs)))) ''name'' =
      Inr (pick m cs ''child_name'' ''name'')"
    using get_or_getitem_parsed_raw [of "''child_name''" "''name''" m cs]
    by (simp add: ARMID_groups_def)
  show ?thesis
    unfolding populate_alternate_kwargs_def
    by (simp only: ns l t n get_parents_parsed_raw bindE_def sum.case parsed_full_def)
qed

lemma drop_none_single [simp]: "drop_none (fmupd k (VStr s) fmempty) = fmupd k (VStr s) fmempty"
  by (rule fmap_ext) (simp add: drop_none_def)

lemma lookup_drop_none:
  "fmlookup (drop_none d) k = (if fmlookup d k = Some VNone then None else fmlookup d k)"
  by (simp add: drop_none_def)

text \<open>\<open>parse_resource_id\<close> without the matcher and without the loops.\<close>

lemma parse_resource_id_eq:
  "parse_resource_id x =
     (if x = [] then Inr fmempty
      else case armid_groups x of
        None \<Rightarrow> Inr (fmupd ''name'' (VStr x) fmempty)
      | Some m \<Rightarrow> Inr (drop_none (parsed_full m (child_scan (children_text m)))))"
proof (cases "x = []")
  case True
  then show ?thesis by (simp add: parse_resource_id_def)
next
  case False
  show ?thesis
  proof (cases "armid_groups x")
    case None
    with False show ?thesis by (simp add: parse_resource_id_def re_match_ARMID_RE)
  next
    case (Some m)
    let ?cs = "child_scan (children_text m)"
    have ch: "dict_getitem (groupdict ARMID_groups m) ''children'' = Inr (group_val m ''children'')"
      by (simp add: dict_getitem_def groupdict_lookup ARMID_groups_def)
    have tx: "str_or_empty (group_val m ''children'') = Inr (children_text m)"
      by (simp add: group_val_def children_text_def split: option.splits)
    obtain r c where rc: "children_loop (zip [0..<length ?cs] ?cs) (groupdict ARMID_groups m, None) = (r, c)"
      by (cases "children_loop (zip [0..<length ?cs] ?cs) (groupdict ARMID_groups m, None)")
    have c: "c = (if ?cs = [] then None else Some (length ?cs - 1))"
      using children_loop_count [of 0 ?cs "groupdict ARMID_groups m" None] rc by simp
    have "fmupd ''last_child_num'' (case c of None \<Rightarrow> VNone | Some c \<Rightarrow> VInt (int c + 1)) r =
        parsed_raw m ?cs"
    proof (cases "?cs = []")
      case True
      with c rc show ?thesis by (simp add: parsed_raw_def)
    next
      case False
      then have "0 < length ?cs" by simp
      then have "int (length ?cs - Suc 0) + 1 = int (length ?cs)" by linarith
      with False c rc show ?thesis by (simp add: parsed_raw_def)
    qed
    with False Some ch tx rc show ?thesis
      by (simp add: parse_resource_id_def re_match_ARMID_RE re_finditer_CHILDREN_RE bindE_def
            populate_parsed_raw Let_def)
  qed
qed

section \<open>The keys of a parsed identifier\<close>

text \<open>
  The value under each key of \<open>parse_resource_id(x)\<close> when \<open>_ARMID_RE\<close> matches with the
  groups \<open>m\<close> and \<open>finditer\<close> yields the child matches \<open>cs\<close>.
\<close>

definition opt_str :: "string option \<Rightarrow> val option" where
  "opt_str v = map_option VStr v"

lemma drop_group_val: "(if group_val m g = VNone then None else Some (group_val m g)) = opt_str (m g)"
  by (simp add: group_val_def opt_str_def split: option.splits)

lemma full_group:
  assumes "g \<in> set ARMID_groups"
  shows "fmlookup (drop_none (parsed_full m cs)) g = opt_str (m g)"
proof -
  from assms have ne: "g \<noteq> ''resource_name''" "g \<noteq> ''resource_type''"
    "g \<noteq> ''resource_namespace''" "g \<noteq> ''resource_parent''"
    by (auto simp: ARMID_groups_def)
  have "fmlookup (with_parents (parsed_raw m cs) (root_seg m) (length cs)) g = fmlookup (parsed_raw m cs) g"
    by (rule with_parents_other) (use assms in \<open>auto simp: ARMID_groups_def parent_key_def\<close>)
  with ne show ?thesis
    by (auto simp: lookup_drop_none parsed_full_def raw_group [OF assms] group_val_def opt_str_def
          split: option.splits)
qed

lemma full_lcn:
  "fmlookup (drop_none (parsed_full m cs)) ''last_child_num'' =
     (if cs = [] then None else Some (VInt (int (length cs))))"
proof -
  have "fmlookup (with_parents (parsed_raw m cs) (root_seg m) (length cs)) ''last_child_num'' =
      fmlookup (parsed_raw m cs) ''last_child_num''"
    by (rule with_parents_other) (simp add: parent_key_def)
  then show ?thesis
    by (simp add: lookup_drop_none parsed_full_def raw_lcn)
qed

lemma full_child:
  assumes "base \<in> set CHILDREN_groups" "1 \<le> i" "i \<le> length cs"
  shows "fmlookup (drop_none (parsed_full m cs)) (base @ ''_'' @ show_nat i) = opt_str ((cs ! (i - 1)) base)"
proof -
  let ?k = "base @ ''_'' @ show_nat i"
  from assms(1) have ne: "?k \<noteq> ''resource_name''" "?k \<noteq> ''resource_type''"
    "?k \<noteq> ''resource_namespace''" "?k \<noteq> ''resource_parent''"
    by (auto simp: CHILDREN_groups_def)
  have "fmlookup (with_parents (parsed_raw m cs) (root_seg m) (length cs)) ?k = fmlookup (parsed_raw m cs) ?k"
    by (rule with_parents_other) (use assms(1) in \<open>auto simp: CHILDREN_groups_def parent_key_def\<close>)
  moreover have "fmlookup (parsed_raw m cs) ?k = Some (group_val (cs ! (i - 1)) base)"
    by (rule raw_child [OF assms])
  ultimately show ?thesis using ne
    by (auto simp: lookup_drop_none parsed_full_def group_val_def opt_str_def
          split: option.splits)
qed

lemma full_child_absent:
  assumes "base \<in> set CHILDREN_groups" "i = 0 \<or> length cs < i"
  shows "fmlookup (drop_none (parsed_full m cs)) (base @ ''_'' @ show_nat i) = None"
proof -
  let ?k = "base @ ''_'' @ show_nat i"
  from assms(1) have ne: "?k \<noteq> ''resource_name''" "?k \<noteq> ''resource_type''"
    "?k \<noteq> ''resource_namespace''" "?k \<noteq> ''resource_parent''"
    by (auto simp: CHILDREN_groups_def)
  have "fmlookup (with_parents (parsed_raw m cs) (root_seg m) (length cs)) ?k = fmlookup (parsed_raw m cs) ?k"
    by (rule with_parents_other) (use assms(1) in \<open>auto simp: CHILDREN_groups_def parent_key_def\<close>)
  moreover have "fmlookup (parsed_raw m cs) ?k = None"
    using assms by (intro raw_other) (auto simp: ARMID_groups_def CHILDREN_groups_def child_keys_def)
  ultimately show ?thesis using ne
    by (simp add: lookup_drop_none parsed_full_def)
qed

lemma full_parent:
  assumes "1 \<le> i" "i \<le> length cs"
  shows "fmlookup (drop_none (parsed_full m cs)) (''child_parent_'' @ show_nat i) =
     Some (VStr (parent_acc (parsed_raw m cs) (root_seg m) 1 i))"
  using with_parents_key [OF assms, of "parsed_raw m cs" "root_seg m"]
  by (simp add: lookup_drop_none parsed_full_def parent_key_def)

lemma full_resource_parent:
  "fmlookup (drop_none (parsed_full m cs)) ''resource_parent'' =
     (if truthy (group_val m ''name'')
      then Some (VStr (if cs = [] then [] else parent_acc (parsed_raw m cs) (root_seg m) 1 (length cs)))
      else None)"
  by (simp add: lookup_drop_none parsed_full_def)

lemma full_resource_namespace:
  "fmlookup (drop_none (parsed_full m cs)) ''resource_namespace'' = opt_str (m ''namespace'')"
  by (auto simp: lookup_drop_none parsed_full_def group_val_def opt_str_def split: option.splits)

lemma full_resource_type:
  "fmlookup (drop_none (parsed_full m cs)) ''resource_type'' =
     (if pick m cs ''child_type'' ''type'' = VNone then None else Some (pick m cs ''child_type'' ''type''))"
  by (simp add: lookup_drop_none parsed_full_def)

lemma full_resource_name:
  "fmlookup (drop_none (parsed_full m cs)) ''resource_name'' =
     (if pick m cs ''child_name'' ''name'' = VNone then None else Some (pick m cs ''child_name'' ''name''))"
  by (simp add: lookup_drop_none parsed_full_def)

text \<open>What the matcher guarantees about the groups.\<close>

lemma child_tail_groups:
  "child_tail g t = Some (s', g') \<Longrightarrow>
   g' ''child_type'' \<noteq> None \<and> g' ''child_name'' \<noteq> None \<and> g' ''child_name'' \<noteq> Some []
   \<and> g' ''child_namespace'' = g ''child_namespace''"
  by (auto simp: child_tail_def split: if_splits)

lemma child_first_groups:
  "child_first s = Some (s', g) \<Longrightarrow>
   g ''child_type'' \<noteq> None \<and> g ''child_name'' \<noteq> None \<and> g ''child_name'' \<noteq> Some []
   \<and> g ''child_namespace'' \<noteq> Some []"
  by (auto simp: child_first_def split: option.splits if_splits list.splits dest!: child_tail_groups)

lemma child_scan_groups:
  "g \<in> set (child_scan s) \<Longrightarrow>
   g ''child_type'' \<noteq> None \<and> g ''child_name'' \<noteq> None \<and> g ''child_name'' \<noteq> Some []
   \<and> g ''child_namespace'' \<noteq> Some []"
proof (induction s rule: child_scan.induct)
  case (1 s)
  show ?case
  proof (cases "child_first s")
    case None
    show ?thesis
    proof (cases s)
      case Nil
      with "1.prems" None show ?thesis by (simp add: child_scan.simps [of "[]"])
    next
      case (Cons c t)
      with "1.prems" None have "g \<in> set (child_scan t)"
        by (simp add: child_scan.simps [of "c # t"])
      with "1.IH"(1) [OF None Cons] show ?thesis by simp
    qed
  next
    case (Some r)
    obtain s' g' where r: "r = (s', g')" by (cases r)
    from Some r have cf: "child_first s = Some (s', g')" by simp
    from "1.prems" cf have "g = g' \<or> g \<in> set (child_scan s')"
      by (simp add: child_scan.simps [of s])
    then show ?thesis
    proof
      assume "g = g'"
      with child_first_groups [OF cf] show ?thesis by simp
    next
      assume "g \<in> set (child_scan s')"
      then show ?thesis by (rule "1.IH"(2) [OF cf refl])
    qed
  qed
qed

lemma child_scan_Nil [simp]: "child_scan [] = []"
  by (subst child_scan.simps) (simp add: child_first_def)

lemma prov_groups_Some:
  "prov_groups g s = Some g' \<Longrightarrow>
   g' ''namespace'' \<noteq> None \<and> g' ''type'' \<noteq> None \<and> g' ''name'' \<noteq> None \<and> g' ''name'' \<noteq> Some []
   \<and> g' ''children'' \<noteq> None \<and> g' ''subscription'' = g ''subscription''
   \<and> g' ''resource_group'' = g ''resource_group''"
  by (auto simp: prov_groups_def Let_def split: if_splits)

lemma armid_groups_cases:
  assumes "armid_groups x = Some m"
  shows "m ''subscription'' \<noteq> None \<and>
    ((m ''namespace'' = None \<and> m ''type'' = None \<and> m ''name'' = None \<and> m ''children'' = None) \<or>
     (m ''namespace'' \<noteq> None \<and> m ''type'' \<noteq> None \<and> m ''name'' \<noteq> None \<and> m ''name'' \<noteq> Some []
      \<and> m ''children'' \<noteq> None))"
proof -
  let ?s1 = "rest (drop 15 x)"
  let ?g1 = "[''subscription'' \<mapsto> seg (drop 15 x)]"
  let ?rg = "ci_prefix ''/resourceGroups/'' ?s1 \<and> seg (drop 16 ?s1) \<noteq> []"
  let ?s2 = "if ?rg then rest (drop 16 ?s1) else ?s1"
  let ?g2 = "if ?rg then ?g1(''resource_group'' \<mapsto> seg (drop 16 ?s1)) else ?g1"
  have "armid_groups x = (if ci_prefix ''/subscriptions/'' x \<and> seg (drop 15 x) \<noteq> []
      then Some (case prov_groups ?g2 ?s2 of Some g3 \<Rightarrow> g3 | None \<Rightarrow> ?g2) else None)"
    by (simp only: armid_groups_def Let_def)
  with assms have m: "m = (case prov_groups ?g2 ?s2 of Some g3 \<Rightarrow> g3 | None \<Rightarrow> ?g2)"
    by (metis option.distinct(1) option.inject)
  have g2: "?g2 ''subscription'' \<noteq> None" "?g2 ''namespace'' = None" "?g2 ''type'' = None"
    "?g2 ''name'' = None" "?g2 ''children'' = None"
    by simp_all
  show ?thesis
  proof (cases "prov_groups ?g2 ?s2")
    case None
    then have "m = ?g2" using m by (simp only: option.case)
    with g2 show ?thesis by (simp only:) simp
  next
    case (Some g3)
    then have "m = g3" using m by (simp only: option.case)
    with prov_groups_Some [OF Some] g2 show ?thesis by (simp only:) simp
  qed
qed

section \<open>Parsing never fails\<close>

text \<open>
  C6. \<open>parse_resource_id\<close> never raises: every input has a result. The empty string gives
  the empty mapping, and a non-empty input that \<open>_ARMID_RE\<close> does not match gives the
  mapping with the one key \<open>name\<close>, whose value is the input.
\<close>

theorem parse_resource_id_total:
  "(\<exists>d. parse_resource_id x = Inr d)
   \<and> parse_resource_id [] = Inr fmempty
   \<and> (x \<noteq> [] \<and> re_match ARMID_RE x = None \<longrightarrow>
        parse_resource_id x = Inr (fmupd ''name'' (VStr x) fmempty)
        \<and> (\<exists>d. parse_resource_id x = Inr d \<and> fmdom' d = {''name''}))"
  by (simp add: parse_resource_id_eq re_match_ARMID_RE split: option.splits)

theorem parse_resource_id_total_witness:
  "parse_resource_id ''not-an-id'' = Inr (fmupd ''name'' (VStr ''not-an-id'') fmempty)
   \<and> ''not-an-id'' \<noteq> [] \<and> re_match ARMID_RE ''not-an-id'' = None"
proof -
  have "re_match ARMID_RE ''not-an-id'' = None"
    by (simp add: re_match_ARMID_RE armid_groups_def)
  with parse_resource_id_total [of "''not-an-id''"] show ?thesis by simp
qed

section \<open>Unmatched trailing text\<close>

text \<open>The value under the key \<open>k\<close> of a result, or the exception of the call.\<close>

definition result_get :: "py_error + dict \<Rightarrow> string \<Rightarrow> py_error + val option" where
  "result_get r k = (case r of Inl e \<Rightarrow> Inl e | Inr d \<Rightarrow> Inr (fmlookup d k))"

lemma result_get_Inr [simp]: "result_get (Inr d) k = Inr (fmlookup d k)"
  by (simp add: result_get_def)

lemma child_scan_Some: "child_first s = Some (s', g) \<Longrightarrow> child_scan s = g # child_scan s'"
  by (subst child_scan.simps) simp

lemma child_scan_None: "child_first (c # cs) = None \<Longrightarrow> child_scan (c # cs) = child_scan cs"
  by (subst child_scan.simps) simp

lemma show_nat_digit: "n < 10 \<Longrightarrow> show_nat n = [digit_char n]"
  by (subst show_nat.simps) simp

lemma lower_char_ascii:
  "lower_char CHR ''A'' = CHR ''a''"
  "lower_char CHR ''B'' = CHR ''b''"
  "lower_char CHR ''C'' = CHR ''c''"
  "lower_char CHR ''D'' = CHR ''d''"
  "lower_char CHR ''E'' = CHR ''e''"
  "lower_char CHR ''F'' = CHR ''f''"
  "lower_char CHR ''G'' = CHR ''g''"
  "lower_char CHR ''H'' = CHR ''h''"
  "lower_char CHR ''I'' = CHR ''i''"
  "lower_char CHR ''J'' = CHR ''j''"
  "lower_char CHR ''K'' = CHR ''k''"
  "lower_char CHR ''L'' = CHR ''l''"
  "lower_char CHR ''M'' = CHR ''m''"
  "lower_char CHR ''N'' = CHR ''n''"
  "lower_char CHR ''O'' = CHR ''o''"
  "lower_char CHR ''P'' = CHR ''p''"
  "lower_char CHR ''Q'' = CHR ''q''"
  "lower_char CHR ''R'' = CHR ''r''"
  "lower_char CHR ''S'' = CHR ''s''"
  "lower_char CHR ''T'' = CHR ''t''"
  "lower_char CHR ''U'' = CHR ''u''"
  "lower_char CHR ''V'' = CHR ''v''"
  "lower_char CHR ''W'' = CHR ''w''"
  "lower_char CHR ''X'' = CHR ''x''"
  "lower_char CHR ''Y'' = CHR ''y''"
  "lower_char CHR ''Z'' = CHR ''z''"
  "lower_char CHR ''a'' = CHR ''a''"
  "lower_char CHR ''b'' = CHR ''b''"
  "lower_char CHR ''c'' = CHR ''c''"
  "lower_char CHR ''d'' = CHR ''d''"
  "lower_char CHR ''e'' = CHR ''e''"
  "lower_char CHR ''f'' = CHR ''f''"
  "lower_char CHR ''g'' = CHR ''g''"
  "lower_char CHR ''h'' = CHR ''h''"
  "lower_char CHR ''i'' = CHR ''i''"
  "lower_char CHR ''j'' = CHR ''j''"
  "lower_char CHR ''k'' = CHR ''k''"
  "lower_char CHR ''l'' = CHR ''l''"
  "lower_char CHR ''m'' = CHR ''m''"
  "lower_char CHR ''n'' = CHR ''n''"
  "lower_char CHR ''o'' = CHR ''o''"
  "lower_char CHR ''p'' = CHR ''p''"
  "lower_char CHR ''q'' = CHR ''q''"
  "lower_char CHR ''r'' = CHR ''r''"
  "lower_char CHR ''s'' = CHR ''s''"
  "lower_char CHR ''t'' = CHR ''t''"
  "lower_char CHR ''u'' = CHR ''u''"
  "lower_char CHR ''v'' = CHR ''v''"
  "lower_char CHR ''w'' = CHR ''w''"
  "lower_char CHR ''x'' = CHR ''x''"
  "lower_char CHR ''y'' = CHR ''y''"
  "lower_char CHR ''z'' = CHR ''z''"
  "lower_char CHR ''0'' = CHR ''0''"
  "lower_char CHR ''1'' = CHR ''1''"
  "lower_char CHR ''2'' = CHR ''2''"
  "lower_char CHR ''3'' = CHR ''3''"
  "lower_char CHR ''4'' = CHR ''4''"
  "lower_char CHR ''5'' = CHR ''5''"
  "lower_char CHR ''6'' = CHR ''6''"
  "lower_char CHR ''7'' = CHR ''7''"
  "lower_char CHR ''8'' = CHR ''8''"
  "lower_char CHR ''9'' = CHR ''9''"
  "lower_char (CHR 0x0A) = CHR 0x0A"
  by (simp_all add: lower_char_def upper_letters_def lower_letters_def)

lemmas eval_rx = armid_groups_def prov_groups_def seg_def rest_def Let_def
  lower_char_ascii
  child_scan_Some child_scan_None child_first_def child_tail_def

lemma parse_matched:
  "armid_groups x = Some m \<Longrightarrow> child_scan (children_text m) = cs \<Longrightarrow>
   parse_resource_id x = Inr (drop_none (parsed_full m cs))"
  by (auto simp: parse_resource_id_eq armid_groups_def)

lemma ex_root_groups: "armid_groups ''/subscriptions/S/providers/NS/T/N'' =
   Some [''subscription'' \<mapsto> ''S'', ''namespace'' \<mapsto> ''NS'', ''type'' \<mapsto> ''T'', ''name'' \<mapsto> ''N'',
     ''children'' \<mapsto> []]"
  by (simp add: eval_rx)


lemma seg_rest_append:
  assumes "CHR ''/'' \<notin> set a" "t = [] \<or> hd t = CHR ''/''"
  shows "seg (a @ t) = a" and "rest (a @ t) = t"
proof -
  have t: "takeWhile (\<lambda>c. c \<noteq> CHR ''/'') t = []" "dropWhile (\<lambda>c. c \<noteq> CHR ''/'') t = t"
    using assms(2) by (cases t; simp)+
  from assms(1) have a: "\<forall>c\<in>set a. c \<noteq> CHR ''/''" by auto
  show "seg (a @ t) = a" using a t by (simp add: seg_def takeWhile_append2)
  show "rest (a @ t) = t" using a t by (simp add: rest_def dropWhile_append2)
qed

lemma ci_prefix_append: "lower pre = lower w \<Longrightarrow> ci_prefix w (pre @ t)"
proof -
  assume a: "lower pre = lower w"
  then have "length pre = length w" unfolding lower_def by (rule map_eq_imp_length_eq)
  with a show ?thesis by (simp add: ci_prefix_iff)
qed

lemma re_match_first:
  "re_match r s = map_option (snd \<circ> snd) (first_of (rx_run r (0, s, Map.empty)))"
  by (simp add: re_match_def split: list.splits)

lemma re_match_RG:
  "re_match RG s = None \<longleftrightarrow> \<not> (ci_prefix ''/resourceGroups/'' s \<and> seg (drop 16 s) \<noteq> [])"
  by (simp add: re_match_first first_RG)

lemma prov_groups_None_any: "prov_groups g s = None \<longleftrightarrow> prov_groups Map.empty s = None"
  by (simp add: prov_groups_def Let_def)

lemma re_match_PROV: "re_match PROV s = None \<longleftrightarrow> prov_groups g s = None"
  by (subst prov_groups_None_any) (simp add: re_match_first first_PROV)

lemma subscription_only:
  "drop_none (parsed_full [''subscription'' \<mapsto> s] []) = fmupd ''subscription'' (VStr s) fmempty"
  by (rule fmap_ext)
     (auto simp: lookup_drop_none parsed_full_def parsed_raw_def groupdict_lookup ARMID_groups_def
        group_val_def pick_def)

text \<open>
  An input that starts with \<open>/subscriptions/{subscription}\<close> (in any case) and goes on
  with text that neither \<open>(/resourceGroups/...)?\<close> nor \<open>(/providers/...)?\<close> matches is parsed
  as the subscription alone. \<open>RG\<close> and \<open>PROV\<close> are the two optional groups of \<open>_ARMID_RE\<close>.
\<close>

lemma parse_subscription_tail:
  assumes "lower pre = ''/subscriptions/''" and "sub \<noteq> []" and "CHR ''/'' \<notin> set sub"
    and "tail = [] \<or> hd tail = CHR ''/''"
    and "re_match RG tail = None" and "re_match PROV tail = None"
  shows "parse_resource_id (pre @ sub @ tail) = Inr (fmupd ''subscription'' (VStr sub) fmempty)"
proof -
  let ?x = "pre @ sub @ tail"
  have low: "lower ''/subscriptions/'' = ''/subscriptions/''"
    by (simp add: lower_def lower_char_ascii)
  from assms(1) have "length (lower pre) = 15" by simp
  then have len: "length pre = 15" by (simp add: lower_def)
  have p: "ci_prefix ''/subscriptions/'' ?x"
    by (rule ci_prefix_append) (simp add: assms(1) low)
  have d: "drop 15 ?x = sub @ tail" using len by simp
  have sg: "seg (sub @ tail) = sub" "rest (sub @ tail) = tail"
    using seg_rest_append [OF assms(3,4)] by simp_all
  have rg: "\<not> (ci_prefix ''/resourceGroups/'' tail \<and> seg (drop 16 tail) \<noteq> [])"
    using assms(5) unfolding re_match_RG .
  have pv: "prov_groups [''subscription'' \<mapsto> sub] tail = None"
    using assms(6) unfolding re_match_PROV [of tail "[''subscription'' \<mapsto> sub]"] .
  have "armid_groups ?x = Some [''subscription'' \<mapsto> sub]"
    unfolding armid_groups_def Let_def d sg
    using p assms(2) rg pv by (simp only: simp_thms if_True if_False option.case)
  then have "parse_resource_id ?x = Inr (drop_none (parsed_full [''subscription'' \<mapsto> sub] []))"
    by (rule parse_matched) (simp add: children_text_def)
  then show ?thesis by (simp only: subscription_only)
qed

text \<open>The groups of a match in which neither optional group took part.\<close>

lemma armid_groups_subscription_only:
  assumes "armid_groups x = Some m" "m ''resource_group'' = None" "m ''namespace'' = None"
  shows "m = [''subscription'' \<mapsto> seg (drop 15 x)]"
proof -
  let ?s1 = "rest (drop 15 x)"
  let ?g1 = "[''subscription'' \<mapsto> seg (drop 15 x)]"
  let ?rg = "ci_prefix ''/resourceGroups/'' ?s1 \<and> seg (drop 16 ?s1) \<noteq> []"
  let ?s2 = "if ?rg then rest (drop 16 ?s1) else ?s1"
  let ?g2 = "if ?rg then ?g1(''resource_group'' \<mapsto> seg (drop 16 ?s1)) else ?g1"
  have "armid_groups x = (if ci_prefix ''/subscriptions/'' x \<and> seg (drop 15 x) \<noteq> []
      then Some (case prov_groups ?g2 ?s2 of Some g3 \<Rightarrow> g3 | None \<Rightarrow> ?g2) else None)"
    by (simp only: armid_groups_def Let_def)
  with assms(1) have m: "m = (case prov_groups ?g2 ?s2 of Some g3 \<Rightarrow> g3 | None \<Rightarrow> ?g2)"
    by (metis option.distinct(1) option.inject)
  have "prov_groups ?g2 ?s2 = None"
  proof (rule ccontr)
    assume "prov_groups ?g2 ?s2 \<noteq> None"
    then obtain g3 where g3: "prov_groups ?g2 ?s2 = Some g3" by blast
    then have "m = g3" using m by (simp only: option.case)
    with prov_groups_Some [OF g3] assms(3) show False by simp
  qed
  then have m2: "m = ?g2" using m by (simp only: option.case)
  have "\<not> ?rg"
  proof
    assume r: ?rg
    then have "m = ?g1(''resource_group'' \<mapsto> seg (drop 16 ?s1))" using m2 by simp
    then have "m ''resource_group'' \<noteq> None" by simp
    with assms(2) show False by simp
  qed
  then have "?g2 = ?g1" by (simp only: if_False)
  with m2 show ?thesis by (simp only:)
qed

text \<open>
  C10. Whenever \<open>_ARMID_RE\<close> matches at the start of the input, with the groups \<open>m\<close>,
  \<open>parse_resource_id\<close> does not raise and does not return the \<open>{name: input}\<close> fallback: the
  result has the subscription and is computed from the groups \<open>m\<close> alone, so that any text
  of the input outside the groups is dropped and two inputs with the same groups have the
  same result. When neither optional group took part the result is the subscription
  alone.
\<close>

theorem parse_discards_unmatched_tail:
  assumes "re_match ARMID_RE x = Some m"
  shows "(\<exists>d s. parse_resource_id x = Inr d \<and> m ''subscription'' = Some s
            \<and> fmlookup d ''subscription'' = Some (VStr s)
            \<and> d \<noteq> fmupd ''name'' (VStr x) fmempty)
     \<and> parse_resource_id x =
         Inr (drop_none (parsed_full m (re_finditer CHILDREN_RE 0 (children_text m))))
     \<and> (\<forall>x'. re_match ARMID_RE x' = Some m \<longrightarrow> parse_resource_id x' = parse_resource_id x)
     \<and> (\<forall>s. m ''subscription'' = Some s \<and> m ''resource_group'' = None \<and> m ''namespace'' = None \<longrightarrow>
           parse_resource_id x = Inr (fmupd ''subscription'' (VStr s) fmempty))"
proof -
  let ?d = "drop_none (parsed_full m (child_scan (children_text m)))"
  from assms have a: "armid_groups x = Some m" by (simp only: re_match_ARMID_RE)
  have p: "parse_resource_id y = Inr ?d" if "armid_groups y = Some m" for y
    using that by (rule parse_matched) simp
  from armid_groups_cases [OF a] obtain s where s: "m ''subscription'' = Some s" by auto
  have l: "fmlookup ?d ''subscription'' = Some (VStr s)"
    using full_group [of "''subscription''" m "child_scan (children_text m)"] s
    by (simp add: ARMID_groups_def opt_str_def)
  have n: "?d \<noteq> fmupd ''name'' (VStr x) fmempty"
  proof
    assume "?d = fmupd ''name'' (VStr x) fmempty"
    then have "fmlookup ?d ''subscription'' = fmlookup (fmupd ''name'' (VStr x) fmempty) ''subscription''"
      by (simp only:)
    with l show False by simp
  qed
  have 1: "\<exists>d s. parse_resource_id x = Inr d \<and> m ''subscription'' = Some s
            \<and> fmlookup d ''subscription'' = Some (VStr s) \<and> d \<noteq> fmupd ''name'' (VStr x) fmempty"
    using p [OF a] s l n by blast
  have 2: "parse_resource_id x =
      Inr (drop_none (parsed_full m (re_finditer CHILDREN_RE 0 (children_text m))))"
    by (simp only: p [OF a] re_finditer_CHILDREN_RE)
  have 3: "\<forall>x'. re_match ARMID_RE x' = Some m \<longrightarrow> parse_resource_id x' = parse_resource_id x"
    by (simp add: re_match_ARMID_RE p p [OF a])
  have 4: "\<forall>s. m ''subscription'' = Some s \<and> m ''resource_group'' = None \<and> m ''namespace'' = None \<longrightarrow>
      parse_resource_id x = Inr (fmupd ''subscription'' (VStr s) fmempty)"
  proof (intro allI impI, elim conjE)
    fix s' assume s': "m ''subscription'' = Some s'" and r: "m ''resource_group'' = None"
      and ns: "m ''namespace'' = None"
    from armid_groups_subscription_only [OF a r ns] s' have "m = [''subscription'' \<mapsto> s']"
      by (metis fun_upd_same option.inject)
    then have "children_text m = []" "m = [''subscription'' \<mapsto> s']" by (simp_all add: children_text_def)
    then show "parse_resource_id x = Inr (fmupd ''subscription'' (VStr s') fmempty)"
      using p [OF a] by (simp add: subscription_only)
  qed
  from 1 2 3 4 show ?thesis by (simp only: simp_thms)
qed

text \<open>
  The text \<open>/junk\<close> is dropped after the subscription and after the resource group alike,
  and so is the text from a line feed on after the children.
\<close>

lemma junk_after_subscription:
  "armid_groups ''/subscriptions/S/junk'' = Some [''subscription'' \<mapsto> ''S'']"
  by (simp add: eval_rx)

lemma junk_after_group:
  "armid_groups ''/subscriptions/S/resourceGroups/G/junk'' =
     Some [''subscription'' \<mapsto> ''S'', ''resource_group'' \<mapsto> ''G'']"
  by (simp add: eval_rx)

theorem parse_discards_unmatched_tail_witness:
  "parse_resource_id ''/subscriptions/S/junk'' = Inr (fmupd ''subscription'' (VStr ''S'') fmempty)
   \<and> parse_resource_id ''/subscriptions/S/resourceGroups/G/junk'' =
       parse_resource_id ''/subscriptions/S/resourceGroups/G''
   \<and> result_get (parse_resource_id ''/subscriptions/S/resourceGroups/G/junk'') ''subscription'' =
       Inr (Some (VStr ''S''))
   \<and> result_get (parse_resource_id ''/subscriptions/S/resourceGroups/G/junk'') ''resource_group'' =
       Inr (Some (VStr ''G''))
   \<and> result_get (parse_resource_id ''/subscriptions/S/resourceGroups/G/junk'') ''name'' = Inr None
   \<and> parse_resource_id (''/subscriptions/S/providers/NS/T/N/CT/CN'' @ CHR 0x0A # ''junk'') =
       parse_resource_id ''/subscriptions/S/providers/NS/T/N/CT/CN''"
proof -
  let ?m = "[''subscription'' \<mapsto> ''S'', ''resource_group'' \<mapsto> ''G'']"
  let ?n = "[''subscription'' \<mapsto> ''S'', ''namespace'' \<mapsto> ''NS'', ''type'' \<mapsto> ''T'',
     ''name'' \<mapsto> ''N'', ''children'' \<mapsto> ''/CT/CN'']"
  have e: "re_match ARMID_RE ''/subscriptions/S/providers/NS/T/N/CT/CN'' = Some ?n"
    by (simp add: re_match_ARMID_RE eval_rx)
  have f: "re_match ARMID_RE (''/subscriptions/S/providers/NS/T/N/CT/CN'' @ CHR 0x0A # ''junk'') = Some ?n"
    by (simp add: re_match_ARMID_RE eval_rx)
  have 4: "parse_resource_id (''/subscriptions/S/providers/NS/T/N/CT/CN'' @ CHR 0x0A # ''junk'') =
      parse_resource_id ''/subscriptions/S/providers/NS/T/N/CT/CN''"
    using parse_discards_unmatched_tail [OF e] f by blast
  have a: "re_match ARMID_RE ''/subscriptions/S/junk'' = Some [''subscription'' \<mapsto> ''S'']"
    by (simp only: re_match_ARMID_RE junk_after_subscription)
  have b: "re_match ARMID_RE ''/subscriptions/S/resourceGroups/G/junk'' = Some ?m"
    by (simp only: re_match_ARMID_RE junk_after_group)
  have c: "re_match ARMID_RE ''/subscriptions/S/resourceGroups/G'' = Some ?m"
    by (simp add: re_match_ARMID_RE eval_rx)
  from parse_discards_unmatched_tail [OF a]
  have "\<forall>s. [''subscription'' \<mapsto> ''S''] ''subscription'' = Some s
      \<and> [''subscription'' \<mapsto> ''S''] ''resource_group'' = None
      \<and> [''subscription'' \<mapsto> ''S''] ''namespace'' = None \<longrightarrow>
      parse_resource_id ''/subscriptions/S/junk'' = Inr (fmupd ''subscription'' (VStr s) fmempty)"
    by (elim conjE)
  then have 1: "parse_resource_id ''/subscriptions/S/junk'' = Inr (fmupd ''subscription'' (VStr ''S'') fmempty)"
    by simp
  have 2: "parse_resource_id ''/subscriptions/S/resourceGroups/G'' =
      parse_resource_id ''/subscriptions/S/resourceGroups/G/junk''"
    using parse_discards_unmatched_tail [OF b] c by blast
  have d: "parse_resource_id ''/subscriptions/S/resourceGroups/G/junk'' =
      Inr (drop_none (parsed_full ?m (re_finditer CHILDREN_RE 0 (children_text ?m))))"
    using parse_discards_unmatched_tail [OF b] by blast
  have 3: "result_get (parse_resource_id ''/subscriptions/S/resourceGroups/G/junk'') ''subscription'' =
       Inr (Some (VStr ''S''))"
    "result_get (parse_resource_id ''/subscriptions/S/resourceGroups/G/junk'') ''resource_group'' =
       Inr (Some (VStr ''G''))"
    "result_get (parse_resource_id ''/subscriptions/S/resourceGroups/G/junk'') ''name'' = Inr None"
    unfolding d by (simp_all add: full_group ARMID_groups_def opt_str_def)
  from 1 2 3 4 show ?thesis by (simp only: simp_thms)
qed

section \<open>resource_parent without children\<close>

lemma armid_groups_Nil [simp]: "armid_groups [] = None"
  by (simp add: armid_groups_def)

lemma parse_lcn_cases:
  assumes "parse_resource_id x = Inr d" and "re_match ARMID_RE x \<noteq> None"
  obtains m cs where "armid_groups x = Some m" "cs = child_scan (children_text m)"
    "d = drop_none (parsed_full m cs)"
proof -
  from assms(2) obtain m where m: "armid_groups x = Some m"
    by (auto simp: re_match_ARMID_RE)
  then have "x \<noteq> []" by auto
  with assms(1) m have "d = drop_none (parsed_full m (child_scan (children_text m)))"
    by (simp add: parse_resource_id_eq)
  with m that show ?thesis by blast
qed

text \<open>
  C2, as the code has it. When \<open>_ARMID_RE\<close> matches and there are no child segments
  (\<open>last_child_num\<close> is absent), \<open>parent_builder\<close> stays empty: \<open>resource_parent\<close> is the
  empty string when \<open>name\<close> is present, and absent when \<open>name\<close> is absent.
\<close>

theorem resource_parent_without_children:
  assumes "re_match ARMID_RE x \<noteq> None" and "parse_resource_id x = Inr d"
    and "fmlookup d ''last_child_num'' = None"
  shows "fmlookup d ''resource_parent'' = (if fmlookup d ''name'' = None then None else Some (VStr []))"
proof -
  from assms(2,1) obtain m cs where m: "armid_groups x = Some m"
    and d: "d = drop_none (parsed_full m cs)"
    by (rule parse_lcn_cases)
  from assms(3) have cs: "cs = []"
    unfolding d full_lcn by (simp split: if_splits)
  have nm: "fmlookup d ''name'' = opt_str (m ''name'')"
    unfolding d by (rule full_group) (simp add: ARMID_groups_def)
  from armid_groups_cases [OF m] have "truthy (group_val m ''name'') \<longleftrightarrow> m ''name'' \<noteq> None"
    by (auto simp: group_val_def)
  then show ?thesis
    unfolding nm unfolding d full_resource_parent cs
    by (simp add: opt_str_def)
qed

text \<open>
  The identifier \<open>/subscriptions/S/providers/NS/T/N\<close> has no children and the name \<open>N\<close>:
  its \<open>resource_parent\<close> is the empty string, not \<open>T/N/\<close>.
\<close>

lemma root_only_parse: "parse_resource_id ''/subscriptions/S/providers/NS/T/N'' =
   Inr (drop_none (parsed_full [''subscription'' \<mapsto> ''S'', ''namespace'' \<mapsto> ''NS'', ''type'' \<mapsto> ''T'',
     ''name'' \<mapsto> ''N'', ''children'' \<mapsto> []] []))"
  by (rule parse_matched [OF ex_root_groups]) (simp add: children_text_def)

lemma root_only_match: "re_match ARMID_RE ''/subscriptions/S/providers/NS/T/N'' \<noteq> None"
  by (simp add: re_match_ARMID_RE ex_root_groups)

theorem resource_parent_without_children_counterexample:
  "re_match ARMID_RE ''/subscriptions/S/providers/NS/T/N'' \<noteq> None
   \<and> result_get (parse_resource_id ''/subscriptions/S/providers/NS/T/N'') ''last_child_num'' = Inr None
   \<and> result_get (parse_resource_id ''/subscriptions/S/providers/NS/T/N'') ''type'' = Inr (Some (VStr ''T''))
   \<and> result_get (parse_resource_id ''/subscriptions/S/providers/NS/T/N'') ''name'' = Inr (Some (VStr ''N''))
   \<and> result_get (parse_resource_id ''/subscriptions/S/providers/NS/T/N'') ''resource_parent''
       \<noteq> Inr (Some (VStr ''T/N/''))"
  by (simp add: root_only_match root_only_parse full_lcn full_group full_resource_parent
        ARMID_groups_def opt_str_def group_val_def)

theorem resource_parent_without_children_witness:
  "result_get (parse_resource_id ''/subscriptions/S/providers/NS/T/N'') ''resource_parent''
     = Inr (Some (VStr []))"
proof -
  let ?d = "drop_none (parsed_full [''subscription'' \<mapsto> ''S'', ''namespace'' \<mapsto> ''NS'',
     ''type'' \<mapsto> ''T'', ''name'' \<mapsto> ''N'', ''children'' \<mapsto> []] [])"
  have l: "fmlookup ?d ''last_child_num'' = None" by (simp add: full_lcn)
  have n: "fmlookup ?d ''name'' \<noteq> None" by (simp add: full_group ARMID_groups_def opt_str_def)
  from resource_parent_without_children [OF root_only_match root_only_parse l] n
  show ?thesis by (simp add: root_only_parse)
qed


section \<open>The derived fields\<close>

lemmas eval_scan = child_scan_Some child_scan_None child_first_def child_tail_def seg_def rest_def
  lower_char_ascii

lemma empty_type_groups: "armid_groups ''/subscriptions/S/providers/NS/T/N//CN'' =
   Some [''subscription'' \<mapsto> ''S'', ''namespace'' \<mapsto> ''NS'', ''type'' \<mapsto> ''T'', ''name'' \<mapsto> ''N'',
     ''children'' \<mapsto> ''//CN'']"
  by (simp add: eval_rx)

lemma empty_type_scan: "child_scan ''//CN'' = [[''child_type'' \<mapsto> [], ''child_name'' \<mapsto> ''CN'']]"
  by (simp add: eval_scan)

lemma empty_type_parse: "parse_resource_id ''/subscriptions/S/providers/NS/T/N//CN'' =
   Inr (drop_none (parsed_full [''subscription'' \<mapsto> ''S'', ''namespace'' \<mapsto> ''NS'', ''type'' \<mapsto> ''T'',
     ''name'' \<mapsto> ''N'', ''children'' \<mapsto> ''//CN''] [[''child_type'' \<mapsto> [], ''child_name'' \<mapsto> ''CN'']]))"
  by (rule parse_matched [OF empty_type_groups]) (simp add: children_text_def empty_type_scan)

lemma show_nat_small [simp]:
  "show_nat (Suc 0) = ''1''" "show_nat 1 = ''1''" "show_nat 2 = ''2''"
  by (simp_all add: show_nat_digit digit_char_def)

text \<open>
  C5, as the code has it. When \<open>_ARMID_RE\<close> matches, \<open>resource_namespace\<close> is the root
  namespace. Without children \<open>resource_type\<close> and \<open>resource_name\<close> are the root's. With
  children \<open>resource_name\<close> is the name of the last child, and \<open>resource_type\<close> is the type
  of the last child unless that type is the empty string: \<open>kwargs.get(child_type_n) or
  kwargs["type"]\<close> then takes the root type, the type of the parent.
\<close>

theorem derived_fields:
  assumes "re_match ARMID_RE x \<noteq> None" and "parse_resource_id x = Inr d"
  shows "fmlookup d ''resource_namespace'' = fmlookup d ''namespace''
     \<and> (case fmlookup d ''last_child_num'' of
           Some (VInt n) \<Rightarrow>
             fmlookup d ''resource_name'' = fmlookup d (''child_name_'' @ show_int n)
             \<and> fmlookup d ''resource_type'' =
                 (if fmlookup d (''child_type_'' @ show_int n) = Some (VStr [])
                  then fmlookup d ''type''
                  else fmlookup d (''child_type_'' @ show_int n))
         | _ \<Rightarrow>
             fmlookup d ''resource_name'' = fmlookup d ''name''
             \<and> fmlookup d ''resource_type'' = fmlookup d ''type'')"
proof -
  from assms(2,1) obtain m cs where m: "armid_groups x = Some m"
    and cs: "cs = child_scan (children_text m)" and d: "d = drop_none (parsed_full m cs)"
    by (rule parse_lcn_cases)
  have ns: "fmlookup d ''namespace'' = opt_str (m ''namespace'')"
    and ty: "fmlookup d ''type'' = opt_str (m ''type'')"
    and nm: "fmlookup d ''name'' = opt_str (m ''name'')"
    unfolding d by (rule full_group, simp add: ARMID_groups_def)+
  have 1: "fmlookup d ''resource_namespace'' = fmlookup d ''namespace''"
    unfolding ns unfolding d by (rule full_resource_namespace)
  show ?thesis
  proof (cases "cs = []")
    case True
    have "fmlookup d ''last_child_num'' = None"
      unfolding d full_lcn using True by simp
    moreover have "fmlookup d ''resource_name'' = opt_str (m ''name'')"
      unfolding d full_resource_name using True
      by (auto simp: pick_def group_val_def opt_str_def split: option.splits)
    moreover have "fmlookup d ''resource_type'' = opt_str (m ''type'')"
      unfolding d full_resource_type using True
      by (auto simp: pick_def group_val_def opt_str_def split: option.splits)
    ultimately show ?thesis using 1 ty nm by simp
  next
    case False
    let ?n = "length cs"
    from False have n: "1 \<le> ?n" "?n \<le> ?n" by (cases cs) simp_all
    have l: "fmlookup d ''last_child_num'' = Some (VInt (int ?n))"
      unfolding d full_lcn using False by simp
    have la: "cs ! (?n - 1) = last cs" using False by (rule last_conv_nth')
    from False have "last cs \<in> set (child_scan (children_text m))" unfolding cs [symmetric] by simp
    from child_scan_groups [OF this] obtain t a where
      g: "last cs ''child_type'' = Some t" "last cs ''child_name'' = Some a" "a \<noteq> []"
      by auto
    have ct: "fmlookup d (''child_type_'' @ show_nat ?n) = Some (VStr t)"
      using full_child [of "''child_type''" ?n cs m] n g(1)
      unfolding d la by (simp add: CHILDREN_groups_def opt_str_def)
    have cn: "fmlookup d (''child_name_'' @ show_nat ?n) = Some (VStr a)"
      using full_child [of "''child_name''" ?n cs m] n g(2)
      unfolding d la by (simp add: CHILDREN_groups_def opt_str_def)
    have rn: "fmlookup d ''resource_name'' = Some (VStr a)"
      unfolding d full_resource_name using False g(2,3) by (simp add: pick_def group_val_def)
    have rt: "fmlookup d ''resource_type'' = (if t = [] then opt_str (m ''type'') else Some (VStr t))"
      unfolding d full_resource_type using False g(1)
      by (simp add: pick_def group_val_def opt_str_def split: option.splits)
    show ?thesis
      using 1 ct cn by (simp add: l rn rt ty)
  qed
qed

text \<open>
  The identifier \<open>/subscriptions/S/providers/NS/T/N//CN\<close> has one child, of the empty type
  and the name \<open>CN\<close>: its \<open>resource_type\<close> is \<open>T\<close>, the type of the root.
\<close>

theorem derived_fields_witness:
  "result_get (parse_resource_id ''/subscriptions/S/providers/NS/T/N//CN'') ''last_child_num'' = Inr (Some (VInt 1))
   \<and> result_get (parse_resource_id ''/subscriptions/S/providers/NS/T/N//CN'') ''child_type_1'' = Inr (Some (VStr []))
   \<and> result_get (parse_resource_id ''/subscriptions/S/providers/NS/T/N//CN'') ''child_name_1'' = Inr (Some (VStr ''CN''))
   \<and> result_get (parse_resource_id ''/subscriptions/S/providers/NS/T/N//CN'') ''resource_name'' = Inr (Some (VStr ''CN''))
   \<and> result_get (parse_resource_id ''/subscriptions/S/providers/NS/T/N//CN'') ''resource_type'' = Inr (Some (VStr ''T''))"
proof -
  let ?m = "[''subscription'' \<mapsto> ''S'', ''namespace'' \<mapsto> ''NS'', ''type'' \<mapsto> ''T'',
     ''name'' \<mapsto> ''N'', ''children'' \<mapsto> ''//CN'']"
  let ?cs = "[[''child_type'' \<mapsto> [], ''child_name'' \<mapsto> ''CN'']]"
  let ?d = "drop_none (parsed_full ?m ?cs)"
  have r: "re_match ARMID_RE ''/subscriptions/S/providers/NS/T/N//CN'' \<noteq> None"
    by (simp only: re_match_ARMID_RE empty_type_groups) simp
  have l: "fmlookup ?d ''last_child_num'' = Some (VInt 1)"
    by (simp add: full_lcn)
  have t: "fmlookup ?d ''child_type_1'' = Some (VStr [])"
    using full_child [of "''child_type''" 1 ?cs ?m] by (simp add: CHILDREN_groups_def opt_str_def)
  have n: "fmlookup ?d ''child_name_1'' = Some (VStr ''CN'')"
    using full_child [of "''child_name''" 1 ?cs ?m] by (simp add: CHILDREN_groups_def opt_str_def)
  have ty: "fmlookup ?d ''type'' = Some (VStr ''T'')"
    by (simp add: full_group ARMID_groups_def opt_str_def)
  from derived_fields [OF r empty_type_parse]
  show ?thesis
    by (simp add: empty_type_parse l t n ty show_int_def)
qed


section \<open>The parent paths of the children\<close>

text \<open>
  The parent path of level \<open>i\<close> read from the parsed mapping alone, in the
  record-then-extend order: the root's \<open>{type}/{name}/\<close>, for every level before \<open>i\<close> its
  optional \<open>providers/{child_namespace}/\<close> and its \<open>{child_type}/{child_name}/\<close>, and of
  level \<open>i\<close> itself only the optional provider segment.
\<close>

definition field :: "dict \<Rightarrow> string \<Rightarrow> string" where
  "field d k = (case fmlookup d k of Some (VStr s) \<Rightarrow> s | _ \<Rightarrow> [])"

definition provider_part :: "dict \<Rightarrow> nat \<Rightarrow> string" where
  "provider_part d i =
     (case fmlookup d (''child_namespace_'' @ show_nat i) of
        Some (VStr ns) \<Rightarrow> ''providers/'' @ ns @ ''/''
      | _ \<Rightarrow> [])"

definition type_name_part :: "dict \<Rightarrow> nat \<Rightarrow> string" where
  "type_name_part d i =
     field d (''child_type_'' @ show_nat i) @ ''/'' @ field d (''child_name_'' @ show_nat i) @ ''/''"

definition recorded_parent :: "dict \<Rightarrow> nat \<Rightarrow> string" where
  "recorded_parent d i =
     field d ''type'' @ ''/'' @ field d ''name'' @ ''/'' @
     concat (map (\<lambda>j. provider_part d j @ type_name_part d j) [1..<i]) @ provider_part d i"

lemma provider_seg_parsed:
  assumes "1 \<le> j" "j \<le> length cs"
  shows "provider_seg (parsed_raw m cs) j = provider_part (drop_none (parsed_full m cs)) j"
  using raw_child_simps(1) [OF assms, of m] full_child [of "''child_namespace''" j cs m] assms
  by (simp add: provider_seg_def provider_part_def dict_get_def CHILDREN_groups_def opt_str_def
        group_val_def split: option.splits)

lemma type_name_seg_parsed:
  assumes "1 \<le> j" "j \<le> length cs" "cs = child_scan t"
  shows "type_name_seg (parsed_raw m cs) j = type_name_part (drop_none (parsed_full m cs)) j"
proof -
  from assms have "cs ! (j - 1) \<in> set (child_scan t)" by simp
  from child_scan_groups [OF this] obtain ty nm where
    g: "(cs ! (j - 1)) ''child_type'' = Some ty" "(cs ! (j - 1)) ''child_name'' = Some nm"
    by auto
  show ?thesis
    using raw_child_simps(2,3) [OF assms(1,2), of m] full_child [of "''child_type''" j cs m]
      full_child [of "''child_name''" j cs m] assms(1,2) g
    by (simp add: type_name_seg_def type_name_part_def dict_get_def CHILDREN_groups_def opt_str_def
          group_val_def field_def)
qed

lemma root_seg_parsed:
  assumes "armid_groups x = Some m" "children_text m \<noteq> []"
  shows "root_seg m = field (drop_none (parsed_full m cs)) ''type'' @ ''/'' @
     field (drop_none (parsed_full m cs)) ''name'' @ ''/''"
    and "truthy (group_val m ''name'')"
proof -
  from assms(2) have "m ''children'' \<noteq> None" by (auto simp: children_text_def split: option.splits)
  with armid_groups_cases [OF assms(1)] obtain ty nm where
    g: "m ''type'' = Some ty" "m ''name'' = Some nm" "nm \<noteq> []"
    by auto
  show "root_seg m = field (drop_none (parsed_full m cs)) ''type'' @ ''/'' @
     field (drop_none (parsed_full m cs)) ''name'' @ ''/''"
    using full_group [of "''type''" m cs] full_group [of "''name''" m cs] g
    by (simp add: root_seg_def field_def ARMID_groups_def opt_str_def group_val_def)
  show "truthy (group_val m ''name'')" using g by (simp add: group_val_def)
qed

lemma parent_acc_parsed:
  assumes "armid_groups x = Some m" "cs = child_scan (children_text m)" "1 \<le> i" "i \<le> length cs"
  shows "parent_acc (parsed_raw m cs) (root_seg m) 1 i = recorded_parent (drop_none (parsed_full m cs)) i"
proof -
  let ?d = "drop_none (parsed_full m cs)"
  from assms have "children_text m \<noteq> []" by auto
  note r = root_seg_parsed(1) [OF assms(1) this, of cs]
  have "map (\<lambda>j. provider_seg (parsed_raw m cs) j @ type_name_seg (parsed_raw m cs) j) [1..<i] =
      map (\<lambda>j. provider_part ?d j @ type_name_part ?d j) [1..<i]"
  proof (rule map_cong [OF refl])
    fix j assume "j \<in> set [1..<i]"
    then have j: "1 \<le> j" "j \<le> length cs" using assms(4) by simp_all
    show "provider_seg (parsed_raw m cs) j @ type_name_seg (parsed_raw m cs) j =
        provider_part ?d j @ type_name_part ?d j"
      by (simp only: provider_seg_parsed [OF j] type_name_seg_parsed [OF j assms(2)])
  qed
  then have cc: "concat (map (\<lambda>j. provider_seg (parsed_raw m cs) j @ type_name_seg (parsed_raw m cs) j) [1..<i]) =
      concat (map (\<lambda>j. provider_part ?d j @ type_name_part ?d j) [1..<i])"
    by (rule arg_cong)
  show ?thesis
    unfolding parent_acc_def recorded_parent_def
    by (simp only: r cc provider_seg_parsed [OF assms(3,4)] append_assoc)
qed

text \<open>
  C4. In the parse of an identifier with \<open>n\<close> children, \<open>child_parent_i\<close> of every level
  \<open>1 \<le> i \<le> n\<close> is the accumulator after the provider segment of level \<open>i\<close> and before its
  type and name, and \<open>resource_parent\<close> is \<open>child_parent_n\<close>.
\<close>

theorem child_parent_record_then_extend:
  assumes "parse_resource_id x = Inr d" and "fmlookup d ''last_child_num'' = Some (VInt (int n))"
    and "1 \<le> i" and "i \<le> n"
  shows "fmlookup d (''child_parent_'' @ show_nat i) = Some (VStr (recorded_parent d i))
     \<and> fmlookup d ''resource_parent'' = Some (VStr (recorded_parent d n))
     \<and> fmlookup d ''resource_parent'' = fmlookup d (''child_parent_'' @ show_nat n)"
proof -
  from assms(1,2) have "x \<noteq> []" by (auto simp: parse_resource_id_eq)
  moreover from assms(1,2) have "armid_groups x \<noteq> None"
    by (auto simp: parse_resource_id_eq split: if_splits option.splits)
  then obtain m where m: "armid_groups x = Some m" by auto
  define cs where "cs = child_scan (children_text m)"
  from assms(1) \<open>x \<noteq> []\<close> m have d: "d = drop_none (parsed_full m cs)"
    by (simp add: parse_resource_id_eq cs_def)
  from assms(2) have len: "cs \<noteq> []" "length cs = n"
    unfolding d full_lcn by (simp_all split: if_splits)
  then have ct: "children_text m \<noteq> []" by (auto simp: cs_def)
  from assms(3,4) len have i: "1 \<le> i" "i \<le> length cs" and n: "1 \<le> length cs" "length cs \<le> length cs"
    by simp_all
  have pi: "fmlookup d (''child_parent_'' @ show_nat i) = Some (VStr (recorded_parent d i))"
    unfolding d full_parent [OF i] parent_acc_parsed [OF m cs_def i] ..
  have pn: "fmlookup d (''child_parent_'' @ show_nat n) = Some (VStr (recorded_parent d n))"
    unfolding d len(2) [symmetric] full_parent [OF n] parent_acc_parsed [OF m cs_def n] ..
  have rp: "fmlookup d ''resource_parent'' = Some (VStr (recorded_parent d n))"
    unfolding d len(2) [symmetric] full_resource_parent
    using root_seg_parsed(2) [OF m ct] len(1) parent_acc_parsed [OF m cs_def n] by simp
  from pi pn rp show ?thesis by simp
qed

lemma two_children_groups: "armid_groups ''/subscriptions/S/providers/NS/T/N/C1T/C1N/C2T/C2N'' =
   Some [''subscription'' \<mapsto> ''S'', ''namespace'' \<mapsto> ''NS'', ''type'' \<mapsto> ''T'', ''name'' \<mapsto> ''N'',
     ''children'' \<mapsto> ''/C1T/C1N/C2T/C2N'']"
  by (simp add: eval_rx)

lemma two_children_scan: "child_scan ''/C1T/C1N/C2T/C2N'' =
   [[''child_type'' \<mapsto> ''C1T'', ''child_name'' \<mapsto> ''C1N''],
    [''child_type'' \<mapsto> ''C2T'', ''child_name'' \<mapsto> ''C2N'']]"
  by (simp add: eval_scan)

lemma two_children_parse: "parse_resource_id ''/subscriptions/S/providers/NS/T/N/C1T/C1N/C2T/C2N'' =
   Inr (drop_none (parsed_full [''subscription'' \<mapsto> ''S'', ''namespace'' \<mapsto> ''NS'', ''type'' \<mapsto> ''T'',
     ''name'' \<mapsto> ''N'', ''children'' \<mapsto> ''/C1T/C1N/C2T/C2N'']
     [[''child_type'' \<mapsto> ''C1T'', ''child_name'' \<mapsto> ''C1N''],
      [''child_type'' \<mapsto> ''C2T'', ''child_name'' \<mapsto> ''C2N'']]))"
  by (rule parse_matched [OF two_children_groups]) (simp add: children_text_def two_children_scan)

theorem child_parent_record_then_extend_witness:
  "result_get (parse_resource_id ''/subscriptions/S/providers/NS/T/N/C1T/C1N/C2T/C2N'') ''last_child_num''
     = Inr (Some (VInt 2))
   \<and> result_get (parse_resource_id ''/subscriptions/S/providers/NS/T/N/C1T/C1N/C2T/C2N'') ''child_parent_1''
     = Inr (Some (VStr ''T/N/''))
   \<and> result_get (parse_resource_id ''/subscriptions/S/providers/NS/T/N/C1T/C1N/C2T/C2N'') ''child_parent_2''
     = Inr (Some (VStr ''T/N/C1T/C1N/''))
   \<and> result_get (parse_resource_id ''/subscriptions/S/providers/NS/T/N/C1T/C1N/C2T/C2N'') ''resource_parent''
     = Inr (Some (VStr ''T/N/C1T/C1N/''))"
proof -
  let ?m = "[''subscription'' \<mapsto> ''S'', ''namespace'' \<mapsto> ''NS'', ''type'' \<mapsto> ''T'',
     ''name'' \<mapsto> ''N'', ''children'' \<mapsto> ''/C1T/C1N/C2T/C2N'']"
  let ?cs = "[[''child_type'' \<mapsto> ''C1T'', ''child_name'' \<mapsto> ''C1N''],
      [''child_type'' \<mapsto> ''C2T'', ''child_name'' \<mapsto> ''C2N'']]"
  let ?d = "drop_none (parsed_full ?m ?cs)"
  have l: "fmlookup ?d ''last_child_num'' = Some (VInt (int 2))" by (simp add: full_lcn)
  have f: "fmlookup ?d ''type'' = Some (VStr ''T'')" "fmlookup ?d ''name'' = Some (VStr ''N'')"
    by (simp_all add: full_group ARMID_groups_def opt_str_def)
  have c1: "fmlookup ?d ''child_namespace_1'' = None" "fmlookup ?d ''child_type_1'' = Some (VStr ''C1T'')"
    "fmlookup ?d ''child_name_1'' = Some (VStr ''C1N'')"
    using full_child [of "''child_namespace''" 1 ?cs ?m] full_child [of "''child_type''" 1 ?cs ?m]
      full_child [of "''child_name''" 1 ?cs ?m]
    by (simp_all add: CHILDREN_groups_def opt_str_def)
  have c2: "fmlookup ?d ''child_namespace_2'' = None"
    using full_child [of "''child_namespace''" 2 ?cs ?m]
    by (simp_all add: CHILDREN_groups_def opt_str_def)
  have r1: "recorded_parent ?d (Suc 0) = ''T/N/''"
    by (simp add: recorded_parent_def field_def f provider_part_def c1)
  have r2: "recorded_parent ?d 2 = ''T/N/C1T/C1N/''"
    by (simp add: recorded_parent_def f provider_part_def type_name_part_def field_def c1 c2
          upt_conv_Cons)
  from child_parent_record_then_extend [OF two_children_parse l, of 1]
    child_parent_record_then_extend [OF two_children_parse l, of 2]
  show ?thesis
    by (simp add: two_children_parse l r1 r2)
qed


section \<open>What resource_id builds\<close>

text \<open>
  A field is present when the mapping has the key with a value other than \<open>None\<close>:
  \<open>resource_id\<close> first drops the keys whose value is \<open>None\<close>. \<open>text_of\<close> is the field as
  \<open>format\<close> prints it.
\<close>

definition present :: "dict \<Rightarrow> string \<Rightarrow> bool" where
  "present d k = (case fmlookup d k of None \<Rightarrow> False | Some v \<Rightarrow> v \<noteq> VNone)"

definition text_of :: "dict \<Rightarrow> string \<Rightarrow> string" where
  "text_of d k = str_of_val (dict_get d k)"

text \<open>
  The segments of the identifier, as the specification lists them: the subscription and
  the optional resource group; for the child level \<open>i\<close> the optional provider segment and
  the type and name; a level is complete when it has both its type and its name.
\<close>

definition head_parts :: "dict \<Rightarrow> string list" where
  "head_parts d =
     [''/subscriptions/'' @ text_of d ''subscription''] @
     (if present d ''resource_group'' then [''resourceGroups/'' @ text_of d ''resource_group''] else [])"

definition child_provider_part :: "dict \<Rightarrow> nat \<Rightarrow> string list" where
  "child_provider_part d i =
     (if present d (''child_namespace_'' @ show_nat i)
      then [''providers/'' @ text_of d (''child_namespace_'' @ show_nat i)] else [])"

definition level_parts :: "dict \<Rightarrow> nat \<Rightarrow> string list" where
  "level_parts d i =
     child_provider_part d i @
     [text_of d (''child_type_'' @ show_nat i) @ ''/'' @ text_of d (''child_name_'' @ show_nat i)]"

definition level_complete :: "dict \<Rightarrow> nat \<Rightarrow> bool" where
  "level_complete d i =
     (present d (''child_type_'' @ show_nat i) \<and> present d (''child_name_'' @ show_nat i))"

lemma format_Txt_Fld:
  "format [Txt t, Fld k] (drop_none d) = (if present d k then Inr (t @ text_of d k) else Inl KeyError)"
  by (simp add: bindE_def dict_getitem_def lookup_drop_none present_def text_of_def dict_get_def
        split: option.splits)

lemma format_Fld_Txt_Fld:
  "format [Fld a, Txt t, Fld b] (drop_none d) =
     (if present d a \<and> present d b then Inr (text_of d a @ t @ text_of d b) else Inl KeyError)"
  by (simp add: bindE_def dict_getitem_def lookup_drop_none present_def text_of_def dict_get_def
        split: option.splits)

lemma rid_loop_step:
  "rid_loop (drop_none d) i rb =
     (if level_complete d i then rid_loop (drop_none d) (Suc i) (rb @ level_parts d i)
      else rb @ child_provider_part d i)"
  by (subst rid_loop.simps)
     (simp add: format_Txt_Fld format_Fld_Txt_Fld level_complete_def level_parts_def
        child_provider_part_def Let_def del: format.simps)

lemma rid_loop_levels:
  assumes "\<And>j. i \<le> j \<Longrightarrow> j \<le> n \<Longrightarrow> level_complete d j" and "\<not> level_complete d (Suc n)"
    and "i \<le> Suc n"
  shows "rid_loop (drop_none d) i rb =
     rb @ concat (map (level_parts d) [i..<Suc n]) @ child_provider_part d (Suc n)"
  using assms
proof (induction "Suc n - i" arbitrary: i rb)
  case 0
  then have "i = Suc n" by simp
  with "0.prems"(2) show ?case by (subst rid_loop_step) simp
next
  case (Suc k)
  then have i: "i \<le> n" by simp
  then have c: "level_complete d i" by (simp add: Suc.prems(1))
  have up: "[i..<Suc n] = i # [Suc i..<Suc n]" using i by (simp add: upt_conv_Cons)
  have "rid_loop (drop_none d) (Suc i) (rb @ level_parts d i) =
      (rb @ level_parts d i) @ concat (map (level_parts d) [Suc i..<Suc n]) @ child_provider_part d (Suc n)"
    by (rule Suc.hyps(1)) (use Suc.hyps(2) Suc.prems i in simp_all)
  then show ?case
    by (subst rid_loop_step) (simp only: c if_True up list.map concat.simps append_assoc)
qed

text \<open>
  C3. \<open>resource_id\<close> raises exactly when \<open>subscription\<close> is not present, and then a
  \<open>KeyError\<close>. With \<open>subscription\<close> present it returns the segments up to the first missing
  field, joined by \<open>/\<close>: the head alone when \<open>namespace\<close> is missing; the head and
  \<open>providers/{namespace}\<close> when \<open>type\<close> or \<open>name\<close> is missing; otherwise the root resource
  and every complete child level before the first incomplete one, of which the provider
  segment is still appended when its namespace is present.
\<close>

theorem resource_id_partial:
  "((\<exists>e. resource_id kw = Inl e) \<longleftrightarrow> \<not> present kw ''subscription'')
   \<and> (\<not> present kw ''subscription'' \<longrightarrow> resource_id kw = Inl KeyError)
   \<and> (present kw ''subscription'' \<and> \<not> present kw ''namespace'' \<longrightarrow>
        resource_id kw = Inr (join ''/'' (head_parts kw)))
   \<and> (present kw ''subscription'' \<and> present kw ''namespace''
        \<and> \<not> (present kw ''type'' \<and> present kw ''name'') \<longrightarrow>
        resource_id kw = Inr (join ''/'' (head_parts kw @ [''providers/'' @ text_of kw ''namespace''])))
   \<and> (present kw ''subscription'' \<and> present kw ''namespace'' \<and> present kw ''type''
        \<and> present kw ''name'' \<and> (\<forall>j. 1 \<le> j \<and> j \<le> n \<longrightarrow> level_complete kw j)
        \<and> \<not> level_complete kw (Suc n) \<longrightarrow>
        resource_id kw = Inr (join ''/'' (head_parts kw @
          [''providers/'' @ text_of kw ''namespace'', text_of kw ''type'' @ ''/'' @ text_of kw ''name''] @
          concat (map (level_parts kw) [1..<Suc n]) @ child_provider_part kw (Suc n))))"
proof -
  have loop: "rid_loop (drop_none kw) 1 rb =
      rb @ concat (map (level_parts kw) [1..<Suc n]) @ child_provider_part kw (Suc n)"
    if "\<forall>j. 1 \<le> j \<and> j \<le> n \<longrightarrow> level_complete kw j" "\<not> level_complete kw (Suc n)" for rb
    by (rule rid_loop_levels) (use that in simp_all)
  show ?thesis
    by (auto simp: resource_id_def Let_def format_Txt_Fld format_Fld_Txt_Fld bindE_def head_parts_def
          loop simp del: One_nat_def format.simps)
qed

theorem resource_id_partial_witness:
  "resource_id (fmupd ''resource_group'' (VStr ''G'') fmempty) = Inl KeyError
   \<and> resource_id (fmupd ''resource_group'' (VStr ''G'') (fmupd ''subscription'' (VStr ''S'') fmempty))
       = Inr ''/subscriptions/S/resourceGroups/G''
   \<and> resource_id (fmupd ''name'' (VStr ''N'') (fmupd ''namespace'' (VStr ''NS'')
         (fmupd ''subscription'' (VStr ''S'') fmempty)))
       = Inr ''/subscriptions/S/providers/NS''
   \<and> resource_id (fmupd ''child_namespace_2'' (VStr ''CNS'') (fmupd ''child_name_1'' (VStr ''CN'')
         (fmupd ''child_type_1'' (VStr ''CT'') (fmupd ''name'' (VStr ''N'') (fmupd ''type'' (VStr ''T'')
         (fmupd ''namespace'' (VStr ''NS'') (fmupd ''subscription'' (VStr ''S'') fmempty)))))))
       = Inr ''/subscriptions/S/providers/NS/T/N/CT/CN/providers/CNS''"
proof -
  let ?a = "fmupd ''resource_group'' (VStr ''G'') fmempty"
  let ?b = "fmupd ''resource_group'' (VStr ''G'') (fmupd ''subscription'' (VStr ''S'') fmempty)"
  let ?c = "fmupd ''name'' (VStr ''N'') (fmupd ''namespace'' (VStr ''NS'')
         (fmupd ''subscription'' (VStr ''S'') fmempty))"
  let ?d = "fmupd ''child_namespace_2'' (VStr ''CNS'') (fmupd ''child_name_1'' (VStr ''CN'')
         (fmupd ''child_type_1'' (VStr ''CT'') (fmupd ''name'' (VStr ''N'') (fmupd ''type'' (VStr ''T'')
         (fmupd ''namespace'' (VStr ''NS'') (fmupd ''subscription'' (VStr ''S'') fmempty))))))"
  have a: "resource_id ?a = Inl KeyError"
    using resource_id_partial [of ?a] by (simp add: present_def)
  have b: "resource_id ?b = Inr ''/subscriptions/S/resourceGroups/G''"
    using resource_id_partial [of ?b]
    by (simp add: present_def text_of_def dict_get_def head_parts_def)
  have c: "resource_id ?c = Inr ''/subscriptions/S/providers/NS''"
    using resource_id_partial [of ?c]
    by (simp add: present_def text_of_def dict_get_def head_parts_def)
  have l1: "\<forall>j. 1 \<le> j \<and> j \<le> 1 \<longrightarrow> level_complete ?d j"
  proof (intro allI impI)
    fix j :: nat assume "1 \<le> j \<and> j \<le> 1"
    then have "j = 1" by simp
    then show "level_complete ?d j" by (simp add: level_complete_def present_def)
  qed
  have l2: "\<not> level_complete ?d (Suc 1)"
    by (simp add: level_complete_def present_def show_nat_digit digit_char_def)
  have d: "resource_id ?d = Inr ''/subscriptions/S/providers/NS/T/N/CT/CN/providers/CNS''"
    using resource_id_partial [of ?d 1] l1 l2
    by (simp add: present_def text_of_def dict_get_def head_parts_def level_parts_def
          child_provider_part_def show_nat_digit digit_char_def)
  from a b c d show ?thesis by simp
qed


section \<open>is_valid_resource_id\<close>

lemma resource_id_Inl: "resource_id kw = Inl e \<Longrightarrow> e = KeyError"
  by (auto simp: resource_id_def Let_def format_Txt_Fld bindE_def split: if_splits
        simp del: format.simps)

lemma parse_resource_id_Inr: "\<exists>d. parse_resource_id x = Inr d"
  by (simp add: parse_resource_id_eq split: option.splits)

text \<open>
  Recomposing the parse of \<open>rid\<close> gives \<open>rid\<close> again, compared after \<open>lower\<close>; an exception
  on the way counts as a difference.
\<close>

definition round_trips :: "string \<Rightarrow> bool" where
  "round_trips rid =
     (case parse_resource_id rid of
        Inl _ \<Rightarrow> False
      | Inr d \<Rightarrow> (case resource_id d of Inl _ \<Rightarrow> False | Inr s \<Rightarrow> lower s = lower rid))"

text \<open>
  C7. Without an exception type \<open>is_valid_resource_id\<close> never raises; it returns \<open>True\<close>
  exactly when \<open>rid\<close> is not empty and round-trips, and a falsy value otherwise; a
  \<open>KeyError\<close> of \<open>resource_id\<close> gives \<open>False\<close>. With the exception type \<open>t\<close> it returns \<open>True\<close>
  for a valid \<open>rid\<close> and raises \<open>t\<close> for every other one.
\<close>

theorem is_valid_resource_id_round_trip:
  "(is_valid_resource_id rid None = Inr (RBool True) \<longleftrightarrow> rid \<noteq> [] \<and> round_trips rid)
   \<and> (\<exists>r. is_valid_resource_id rid None = Inr r \<and> (ret_truthy r \<longleftrightarrow> rid \<noteq> [] \<and> round_trips rid))
   \<and> (rid \<noteq> [] \<and> (\<exists>d. parse_resource_id rid = Inr d \<and> resource_id d = Inl KeyError) \<longrightarrow>
        is_valid_resource_id rid None = Inr (RBool False))
   \<and> is_valid_resource_id rid (Some t) =
        (if rid \<noteq> [] \<and> round_trips rid then Inr (RBool True) else Inl (Raised t))"
proof -
  obtain d where d: "parse_resource_id rid = Inr d"
    using parse_resource_id_Inr by blast
  show ?thesis
  proof (cases "resource_id d")
    case (Inl e)
    then have "e = KeyError" by (rule resource_id_Inl)
    with Inl d show ?thesis
      by (simp add: is_valid_resource_id_def round_trips_def bindE_def)
  next
    case (Inr s)
    with d show ?thesis
      by (simp add: is_valid_resource_id_def round_trips_def bindE_def)
  qed
qed

lemma not_an_id_parse: "parse_resource_id ''not-an-id'' = Inr (fmupd ''name'' (VStr ''not-an-id'') fmempty)"
  by (simp add: parse_resource_id_eq armid_groups_def)

lemma subscription_S_parse: "parse_resource_id ''/subscriptions/S'' = Inr (fmupd ''subscription'' (VStr ''S'') fmempty)"
proof -
  have "armid_groups ''/subscriptions/S'' = Some [''subscription'' \<mapsto> ''S'']"
    by (simp add: eval_rx)
  then have "parse_resource_id ''/subscriptions/S'' = Inr (drop_none (parsed_full [''subscription'' \<mapsto> ''S''] []))"
    by (rule parse_matched) (simp add: children_text_def)
  then show ?thesis by (simp only: subscription_only)
qed

theorem is_valid_resource_id_round_trip_witness:
  "is_valid_resource_id ''not-an-id'' None = Inr (RBool False)
   \<and> is_valid_resource_id ''not-an-id'' (Some ''ValueError'') = Inl (Raised ''ValueError'')
   \<and> is_valid_resource_id ''/subscriptions/S'' None = Inr (RBool True)
   \<and> is_valid_resource_id ''/subscriptions/S'' (Some ''ValueError'') = Inr (RBool True)"
proof -
  have k: "resource_id (fmupd ''name'' (VStr ''not-an-id'') fmempty) = Inl KeyError"
    by (simp add: resource_id_def Let_def bindE_def dict_getitem_def)
  have s: "resource_id (fmupd ''subscription'' (VStr ''S'') fmempty) = Inr ''/subscriptions/S''"
    by (simp add: resource_id_def Let_def bindE_def dict_getitem_def)
  have n: "\<not> round_trips ''not-an-id''"
    by (simp add: round_trips_def not_an_id_parse k)
  have v: "round_trips ''/subscriptions/S''"
    by (simp add: round_trips_def subscription_S_parse s)
  from is_valid_resource_id_round_trip [of "''not-an-id''" "''ValueError''"]
    is_valid_resource_id_round_trip [of "''/subscriptions/S''" "''ValueError''"] n v
  show ?thesis
    by (simp add: not_an_id_parse k)
qed


section \<open>Identifiers of the canonical shape\<close>

text \<open>
  The text after the root resource as a list of pairs \<open>/{a}/{b}\<close>: no part contains \<open>/\<close>
  and every \<open>b\<close> is non-empty. A child with its own namespace is the two pairs
  \<open>/providers/{child_namespace}\<close> and \<open>/{child_type}/{child_name}\<close>.
\<close>

definition field_ok :: "string \<Rightarrow> bool" where
  "field_ok s = (s \<noteq> [] \<and> CHR ''/'' \<notin> set s)"

definition pair_ok :: "string \<times> string \<Rightarrow> bool" where
  "pair_ok p = (CHR ''/'' \<notin> set (fst p) \<and> field_ok (snd p))"

definition render_pairs :: "(string \<times> string) list \<Rightarrow> string" where
  "render_pairs ps = concat (map (\<lambda>p. ''/'' @ fst p @ ''/'' @ snd p) ps)"

text \<open>What \<open>finditer\<close> makes of the pairs: \<open>providers\<close>, in any case, with a pair after it
  opens a child with a namespace.\<close>

fun scan_pairs :: "(string \<times> string) list \<Rightarrow> groups list" where
  "scan_pairs [] = []"
| "scan_pairs [p] = [[''child_type'' \<mapsto> fst p, ''child_name'' \<mapsto> snd p]]"
| "scan_pairs (p # q # ps) =
     (if lower (fst p) = ''providers''
      then [''child_namespace'' \<mapsto> snd p, ''child_type'' \<mapsto> fst q, ''child_name'' \<mapsto> snd q] # scan_pairs ps
      else [''child_type'' \<mapsto> fst p, ''child_name'' \<mapsto> snd p] # scan_pairs (q # ps))"

lemma render_pairs_Nil [simp]: "render_pairs [] = []"
  by (simp add: render_pairs_def)

lemma render_pairs_Cons: "render_pairs (p # ps) = CHR ''/'' # fst p @ CHR ''/'' # snd p @ render_pairs ps"
  by (simp add: render_pairs_def)

lemma render_pairs_hd: "render_pairs ps = [] \<or> hd (render_pairs ps) = CHR ''/''"
  by (cases ps) (simp_all add: render_pairs_Cons)

lemma seg_rest_slash:
  assumes "CHR ''/'' \<notin> set a"
  shows "seg (a @ CHR ''/'' # t) = a" and "rest (a @ CHR ''/'' # t) = CHR ''/'' # t"
  using seg_rest_append [OF assms, of "CHR ''/'' # t"] by simp_all

lemma child_tail_pair:
  assumes "CHR ''/'' \<notin> set a" "field_ok b" "t = [] \<or> hd t = CHR ''/''"
  shows "child_tail g (a @ CHR ''/'' # b @ t) = Some (t, g(''child_type'' \<mapsto> a, ''child_name'' \<mapsto> b))"
proof -
  from assms(2) have b: "CHR ''/'' \<notin> set b" "b \<noteq> []" by (simp_all add: field_ok_def)
  show ?thesis
    unfolding child_tail_def
    by (simp add: seg_rest_slash [OF assms(1)] seg_rest_append [OF b(1) assms(3)] b(2))
qed

lemma take_seg_eq:
  "CHR ''/'' \<notin> set u \<Longrightarrow> CHR ''/'' \<notin> set w \<Longrightarrow>
   take (Suc (length w)) (u @ CHR ''/'' # r) = w @ [CHR ''/''] \<Longrightarrow> u = w"
proof (induction u arbitrary: w)
  case Nil
  then show ?case by (cases w) auto
next
  case (Cons c u)
  then show ?case by (cases w) auto
qed

lemma slash_eq_lower_char [simp]: "CHR ''/'' = lower_char c \<longleftrightarrow> c = CHR ''/''"
proof -
  have "(CHR ''/'' = lower_char c) = (lower_char c = CHR ''/'')" by (rule eq_commute)
  then show ?thesis by simp
qed

lemma lower_no_slash: "CHR ''/'' \<in> set (lower a) \<longleftrightarrow> CHR ''/'' \<in> set a"
  by (induction a) (auto simp: lower_def)

lemma ci_prefix_seg:
  assumes "CHR ''/'' \<notin> set a" "CHR ''/'' \<notin> set w"
  shows "ci_prefix (CHR ''/'' # w @ [CHR ''/'']) (CHR ''/'' # a @ CHR ''/'' # r) \<longleftrightarrow> lower a = lower w"
proof
  assume "lower a = lower w"
  then have "lower (CHR ''/'' # a @ [CHR ''/'']) = lower (CHR ''/'' # w @ [CHR ''/''])"
    by (simp add: lower_def)
  from ci_prefix_append [OF this, of r] show "ci_prefix (CHR ''/'' # w @ [CHR ''/'']) (CHR ''/'' # a @ CHR ''/'' # r)"
    by simp
next
  assume "ci_prefix (CHR ''/'' # w @ [CHR ''/'']) (CHR ''/'' # a @ CHR ''/'' # r)"
  then have "lower (take (Suc (length w)) (a @ CHR ''/'' # r)) = lower w @ [CHR ''/'']"
    by (simp add: ci_prefix_iff lower_def)
  moreover have "lower (take (Suc (length w)) (a @ CHR ''/'' # r)) =
      take (Suc (length w)) (lower (a @ CHR ''/'' # r))"
    by (simp only: lower_def take_map)
  moreover have "lower (a @ CHR ''/'' # r) = lower a @ CHR ''/'' # lower r"
    by (simp add: lower_def)
  moreover have "length (lower w) = length w"
    by (simp add: lower_def)
  ultimately have "take (Suc (length (lower w))) (lower a @ CHR ''/'' # lower r) = lower w @ [CHR ''/'']"
    by (simp only:)
  moreover have "CHR ''/'' \<notin> set (lower a)" "CHR ''/'' \<notin> set (lower w)"
    using assms by (simp_all add: lower_no_slash)
  ultimately show "lower a = lower w"
    by (rule take_seg_eq [rotated 2])
qed

lemma ci_prefix_providers:
  assumes "CHR ''/'' \<notin> set a"
  shows "ci_prefix ''/providers/'' (CHR ''/'' # a @ CHR ''/'' # r) \<longleftrightarrow> lower a = ''providers''"
  using ci_prefix_seg [OF assms, of "''providers''" r]
  by (simp add: lower_def lower_char_ascii)

lemma child_first_pair:
  assumes "pair_ok p" "t = [] \<or> hd t = CHR ''/''" "lower (fst p) \<noteq> ''providers'' \<or> t = []"
  shows "child_first (CHR ''/'' # fst p @ CHR ''/'' # snd p @ t) =
     Some (t, [''child_type'' \<mapsto> fst p, ''child_name'' \<mapsto> snd p])"
proof -
  from assms(1) have a: "CHR ''/'' \<notin> set (fst p)" and b: "field_ok (snd p)"
    by (simp_all add: pair_ok_def)
  from b have b': "CHR ''/'' \<notin> set (snd p)" "snd p \<noteq> []" by (simp_all add: field_ok_def)
  let ?s = "CHR ''/'' # fst p @ CHR ''/'' # snd p @ t"
  have plain: "child_tail Map.empty (fst p @ CHR ''/'' # snd p @ t) =
      Some (t, [''child_type'' \<mapsto> fst p, ''child_name'' \<mapsto> snd p])"
    by (rule child_tail_pair [OF a b assms(2)])
  show ?thesis
  proof (cases "lower (fst p) = ''providers''")
    case False
    then have "\<not> ci_prefix ''/providers/'' ?s"
      using ci_prefix_providers [OF a, of "snd p @ t"] by simp
    then show ?thesis by (simp add: child_first_def plain)
  next
    case True
    with assms(3) have t: "t = []" by simp
    from True have "length (lower (fst p)) = 9" by simp
    then have len: "length (fst p) = 9" by (simp add: lower_def)
    then have d: "drop 11 ?s = snd p @ t" by simp
    have "rest (snd p @ t) = []"
      using seg_rest_append(2) [OF b'(1) assms(2)] t by simp
    then show ?thesis
      unfolding child_first_def d by (simp add: plain)
  qed
qed

lemma child_first_provider:
  assumes "pair_ok p" "pair_ok q" "t = [] \<or> hd t = CHR ''/''" "lower (fst p) = ''providers''"
  shows "child_first (CHR ''/'' # fst p @ CHR ''/'' # snd p @ CHR ''/'' # fst q @ CHR ''/'' # snd q @ t) =
     Some (t, [''child_namespace'' \<mapsto> snd p, ''child_type'' \<mapsto> fst q, ''child_name'' \<mapsto> snd q])"
proof -
  from assms(1) have a: "CHR ''/'' \<notin> set (fst p)" and b: "CHR ''/'' \<notin> set (snd p)" "snd p \<noteq> []"
    by (simp_all add: pair_ok_def field_ok_def)
  from assms(2) have c: "CHR ''/'' \<notin> set (fst q)" and dd: "field_ok (snd q)"
    by (simp_all add: pair_ok_def)
  let ?r = "CHR ''/'' # fst q @ CHR ''/'' # snd q @ t"
  let ?s = "CHR ''/'' # fst p @ CHR ''/'' # snd p @ ?r"
  have pre: "ci_prefix ''/providers/'' ?s"
    using ci_prefix_providers [OF a, of "snd p @ ?r"] assms(4) by simp
  from assms(4) have "length (lower (fst p)) = 9" by simp
  then have len: "length (fst p) = 9" by (simp add: lower_def)
  then have d: "drop 11 ?s = snd p @ ?r" by simp
  have sr: "seg (snd p @ ?r) = snd p" "rest (snd p @ ?r) = ?r"
    using seg_rest_slash [OF b(1), of "fst q @ CHR ''/'' # snd q @ t"] by simp_all
  have tail: "child_tail [''child_namespace'' \<mapsto> snd p] (fst q @ CHR ''/'' # snd q @ t) =
      Some (t, [''child_namespace'' \<mapsto> snd p, ''child_type'' \<mapsto> fst q, ''child_name'' \<mapsto> snd q])"
    by (rule child_tail_pair [OF c dd assms(3)])
  show ?thesis
    unfolding child_first_def d sr using pre b(2) by (simp add: tail)
qed

lemma child_scan_pairs:
  "\<forall>p\<in>set ps. pair_ok p \<Longrightarrow> child_scan (render_pairs ps) = scan_pairs ps"
proof (induction ps rule: scan_pairs.induct)
  case 1
  show ?case by simp
next
  case (2 p)
  then have p: "pair_ok p" by simp
  from child_first_pair [OF p, of "[]"] show ?case
    by (simp add: render_pairs_Cons child_scan_Some)
next
  case (3 p q ps)
  then have p: "pair_ok p" and q: "pair_ok q" and ps: "\<forall>p\<in>set ps. pair_ok p" by simp_all
  show ?case
  proof (cases "lower (fst p) = ''providers''")
    case True
    from child_first_provider [OF p q render_pairs_hd True, of ps]
    have "child_scan (render_pairs (p # q # ps)) =
        [''child_namespace'' \<mapsto> snd p, ''child_type'' \<mapsto> fst q, ''child_name'' \<mapsto> snd q] #
        child_scan (render_pairs ps)"
      by (simp add: render_pairs_Cons child_scan_Some)
    with True "3.IH"(1) [OF True ps] show ?thesis by simp
  next
    case False
    have "child_first (CHR ''/'' # fst p @ CHR ''/'' # snd p @ render_pairs (q # ps)) =
        Some (render_pairs (q # ps), [''child_type'' \<mapsto> fst p, ''child_name'' \<mapsto> snd p])"
      by (rule child_first_pair [OF p render_pairs_hd]) (simp add: False)
    then have "child_scan (render_pairs (p # q # ps)) =
        [''child_type'' \<mapsto> fst p, ''child_name'' \<mapsto> snd p] # child_scan (render_pairs (q # ps))"
      by (simp add: render_pairs_Cons [of p] child_scan_Some)
    with False "3.IH"(2) [OF False] q ps show ?thesis by simp
  qed
qed


section \<open>What resource_id builds from a parse\<close>

text \<open>
  The identifier that \<open>resource_id\<close> builds from the parse with the root groups \<open>m\<close> and the
  child matches \<open>cs\<close>.
\<close>

definition grp :: "groups \<Rightarrow> string \<Rightarrow> string" where
  "grp m k = (case m k of None \<Rightarrow> [] | Some s \<Rightarrow> s)"

definition unit_text :: "groups \<Rightarrow> string" where
  "unit_text c =
     (case c ''child_namespace'' of None \<Rightarrow> [] | Some ns \<Rightarrow> ''/providers/'' @ ns) @
     ''/'' @ grp c ''child_type'' @ ''/'' @ grp c ''child_name''"

definition rebuilt :: "groups \<Rightarrow> groups list \<Rightarrow> string" where
  "rebuilt m cs =
     ''/subscriptions/'' @ grp m ''subscription'' @
     (case m ''resource_group'' of None \<Rightarrow> [] | Some g \<Rightarrow> ''/resourceGroups/'' @ g) @
     (case m ''namespace'' of
        None \<Rightarrow> []
      | Some ns \<Rightarrow> ''/providers/'' @ ns @ ''/'' @ grp m ''type'' @ ''/'' @ grp m ''name'' @
                   concat (map unit_text cs))"

lemma drop_none_idem [simp]: "drop_none (drop_none e) = drop_none e"
  by (rule fmap_ext) (simp add: lookup_drop_none)

lemma present_iff: "present e k \<longleftrightarrow> fmlookup (drop_none e) k \<noteq> None"
  by (simp add: present_def lookup_drop_none split: option.splits)

lemma text_of_lookup:
  "text_of e k = (case fmlookup (drop_none e) k of None \<Rightarrow> ''None'' | Some v \<Rightarrow> str_of_val v)"
  by (simp add: text_of_def dict_get_def lookup_drop_none split: option.splits)

lemma root_fields:
  "present (parsed_full m cs) ''subscription'' \<longleftrightarrow> m ''subscription'' \<noteq> None"
  "present (parsed_full m cs) ''resource_group'' \<longleftrightarrow> m ''resource_group'' \<noteq> None"
  "present (parsed_full m cs) ''namespace'' \<longleftrightarrow> m ''namespace'' \<noteq> None"
  "present (parsed_full m cs) ''type'' \<longleftrightarrow> m ''type'' \<noteq> None"
  "present (parsed_full m cs) ''name'' \<longleftrightarrow> m ''name'' \<noteq> None"
  using full_group [of "''subscription''" m cs] full_group [of "''resource_group''" m cs]
    full_group [of "''namespace''" m cs] full_group [of "''type''" m cs] full_group [of "''name''" m cs]
  by (simp_all add: present_iff ARMID_groups_def opt_str_def)

lemma root_texts:
  "m ''subscription'' \<noteq> None \<Longrightarrow> text_of (parsed_full m cs) ''subscription'' = grp m ''subscription''"
  "m ''resource_group'' \<noteq> None \<Longrightarrow> text_of (parsed_full m cs) ''resource_group'' = grp m ''resource_group''"
  "m ''namespace'' \<noteq> None \<Longrightarrow> text_of (parsed_full m cs) ''namespace'' = grp m ''namespace''"
  "m ''type'' \<noteq> None \<Longrightarrow> text_of (parsed_full m cs) ''type'' = grp m ''type''"
  "m ''name'' \<noteq> None \<Longrightarrow> text_of (parsed_full m cs) ''name'' = grp m ''name''"
  using full_group [of "''subscription''" m cs] full_group [of "''resource_group''" m cs]
    full_group [of "''namespace''" m cs] full_group [of "''type''" m cs] full_group [of "''name''" m cs]
  by (auto simp: text_of_lookup ARMID_groups_def opt_str_def grp_def)

lemma child_fields:
  assumes "1 \<le> i" "i \<le> length cs"
  shows "present (parsed_full m cs) (''child_namespace_'' @ show_nat i) \<longleftrightarrow>
           (cs ! (i - 1)) ''child_namespace'' \<noteq> None"
    and "present (parsed_full m cs) (''child_type_'' @ show_nat i) \<longleftrightarrow>
           (cs ! (i - 1)) ''child_type'' \<noteq> None"
    and "present (parsed_full m cs) (''child_name_'' @ show_nat i) \<longleftrightarrow>
           (cs ! (i - 1)) ''child_name'' \<noteq> None"
  using full_child [of "''child_namespace''" i cs m] full_child [of "''child_type''" i cs m]
    full_child [of "''child_name''" i cs m] assms
  by (simp_all add: present_iff CHILDREN_groups_def opt_str_def)

lemma child_texts:
  assumes "1 \<le> i" "i \<le> length cs"
  shows "(cs ! (i - 1)) ''child_namespace'' \<noteq> None \<Longrightarrow>
           text_of (parsed_full m cs) (''child_namespace_'' @ show_nat i) = grp (cs ! (i - 1)) ''child_namespace''"
    and "(cs ! (i - 1)) ''child_type'' \<noteq> None \<Longrightarrow>
           text_of (parsed_full m cs) (''child_type_'' @ show_nat i) = grp (cs ! (i - 1)) ''child_type''"
    and "(cs ! (i - 1)) ''child_name'' \<noteq> None \<Longrightarrow>
           text_of (parsed_full m cs) (''child_name_'' @ show_nat i) = grp (cs ! (i - 1)) ''child_name''"
  using full_child [of "''child_namespace''" i cs m] full_child [of "''child_type''" i cs m]
    full_child [of "''child_name''" i cs m] assms
  by (auto simp: text_of_lookup CHILDREN_groups_def opt_str_def grp_def)

lemma child_fields_absent:
  assumes "length cs < i"
  shows "\<not> present (parsed_full m cs) (''child_namespace_'' @ show_nat i)"
    and "\<not> present (parsed_full m cs) (''child_type_'' @ show_nat i)"
    and "\<not> present (parsed_full m cs) (''child_name_'' @ show_nat i)"
  using full_child_absent [of "''child_namespace''" i cs m] full_child_absent [of "''child_type''" i cs m]
    full_child_absent [of "''child_name''" i cs m] assms
  by (simp_all add: present_iff CHILDREN_groups_def)

text \<open>\<open>"/".join\<close> of a non-empty list puts \<open>/\<close> before every part but the first.\<close>

definition slashed :: "string list \<Rightarrow> string" where
  "slashed xs = concat (map (\<lambda>s. ''/'' @ s) xs)"

lemma join_slashed: "join ''/'' (x # xs) = x @ slashed xs"
  by (induction xs arbitrary: x) (simp_all add: slashed_def)

lemma slashed_append: "slashed (xs @ ys) = slashed xs @ slashed ys"
  by (simp add: slashed_def)

lemma slashed_concat: "slashed (concat xss) = concat (map slashed xss)"
  by (induction xss) (simp_all add: slashed_append, simp add: slashed_def)

lemma map_nth_shift: "map (\<lambda>j. f (cs ! (j - 1))) [1..<Suc (length cs)] = map f cs"
proof -
  have "[1..<Suc (length cs)] = map Suc [0..<length cs]"
    by (simp add: map_Suc_upt)
  then have "map (\<lambda>j. f (cs ! (j - 1))) [1..<Suc (length cs)] = map (\<lambda>i. f (cs ! i)) [0..<length cs]"
    by (simp add: comp_def)
  also have "\<dots> = map f (map (\<lambda>i. cs ! i) [0..<length cs])"
    by (simp add: comp_def)
  also have "\<dots> = map f cs"
    by (simp only: map_nth)
  finally show ?thesis .
qed

lemma slashed_level:
  assumes "1 \<le> j" "j \<le> length cs" "(cs ! (j - 1)) ''child_type'' \<noteq> None"
    "(cs ! (j - 1)) ''child_name'' \<noteq> None"
  shows "slashed (level_parts (parsed_full m cs) j) = unit_text (cs ! (j - 1))"
proof (cases "(cs ! (j - 1)) ''child_namespace''")
  case None
  then have "\<not> present (parsed_full m cs) (''child_namespace_'' @ show_nat j)"
    unfolding child_fields(1) [OF assms(1,2)] by simp
  then show ?thesis
    unfolding level_parts_def child_provider_part_def unit_text_def
      child_texts(2) [OF assms(1,2,3)] child_texts(3) [OF assms(1,2,4)]
    using None by (simp add: slashed_def)
next
  case (Some ns)
  then have ne: "(cs ! (j - 1)) ''child_namespace'' \<noteq> None" by simp
  then have "present (parsed_full m cs) (''child_namespace_'' @ show_nat j)"
    unfolding child_fields(1) [OF assms(1,2)] .
  then show ?thesis
    unfolding level_parts_def child_provider_part_def unit_text_def
      child_texts(2) [OF assms(1,2,3)] child_texts(3) [OF assms(1,2,4)] child_texts(1) [OF assms(1,2) ne]
    using Some by (simp add: slashed_def grp_def)
qed

lemma level_complete_parsed:
  assumes "1 \<le> j" "j \<le> length cs" "(cs ! (j - 1)) ''child_type'' \<noteq> None"
    "(cs ! (j - 1)) ''child_name'' \<noteq> None"
  shows "level_complete (parsed_full m cs) j"
  unfolding level_complete_def child_fields(2,3) [OF assms(1,2)] using assms(3,4) by simp

lemma rid_loop_parsed:
  assumes "\<forall>c\<in>set cs. c ''child_type'' \<noteq> None \<and> c ''child_name'' \<noteq> None"
  shows "rid_loop (drop_none (parsed_full m cs)) 1 rb =
      rb @ concat (map (level_parts (parsed_full m cs)) [1..<Suc (length cs)])"
proof -
  let ?pf = "parsed_full m cs"
  have "rid_loop (drop_none ?pf) 1 rb =
      rb @ concat (map (level_parts ?pf) [1..<Suc (length cs)]) @ child_provider_part ?pf (Suc (length cs))"
  proof (rule rid_loop_levels)
    fix j assume j: "1 \<le> j" "j \<le> length cs"
    then have "cs ! (j - 1) \<in> set cs" by simp
    with assms have "(cs ! (j - 1)) ''child_type'' \<noteq> None" "(cs ! (j - 1)) ''child_name'' \<noteq> None"
      by blast+
    then show "level_complete ?pf j" by (rule level_complete_parsed [OF j])
  next
    have "length cs < Suc (length cs)" by simp
    from child_fields_absent(2) [OF this] show "\<not> level_complete ?pf (Suc (length cs))"
      unfolding level_complete_def by blast
  next
    show "1 \<le> Suc (length cs)" by simp
  qed
  moreover have "child_provider_part ?pf (Suc (length cs)) = []"
  proof -
    have "length cs < Suc (length cs)" by simp
    from child_fields_absent(1) [OF this, of m] show ?thesis
      unfolding child_provider_part_def by (simp only: if_False)
  qed
  ultimately show ?thesis by (simp only: append_Nil2)
qed

lemma slashed_levels:
  assumes "\<forall>c\<in>set cs. c ''child_type'' \<noteq> None \<and> c ''child_name'' \<noteq> None"
  shows "slashed (concat (map (level_parts (parsed_full m cs)) [1..<Suc (length cs)])) =
      concat (map unit_text cs)"
proof -
  let ?pf = "parsed_full m cs"
  have "map (\<lambda>j. slashed (level_parts ?pf j)) [1..<Suc (length cs)] =
      map (\<lambda>j. unit_text (cs ! (j - 1))) [1..<Suc (length cs)]"
  proof (rule map_cong [OF refl])
    fix j assume "j \<in> set [1..<Suc (length cs)]"
    then have j: "1 \<le> j" "j \<le> length cs" by auto
    then have "cs ! (j - 1) \<in> set cs" by simp
    with assms have "(cs ! (j - 1)) ''child_type'' \<noteq> None" "(cs ! (j - 1)) ''child_name'' \<noteq> None"
      by blast+
    then show "slashed (level_parts ?pf j) = unit_text (cs ! (j - 1))"
      by (rule slashed_level [OF j])
  qed
  then show ?thesis
    by (simp only: slashed_concat map_map comp_def map_nth_shift)
qed

lemma resource_id_parsed:
  assumes "armid_groups x = Some m" "cs = child_scan (children_text m)"
  shows "resource_id (drop_none (parsed_full m cs)) = Inr (rebuilt m cs)"
proof -
  let ?pf = "parsed_full m cs"
  have g: "\<forall>c\<in>set cs. c ''child_type'' \<noteq> None \<and> c ''child_name'' \<noteq> None"
    using child_scan_groups assms(2) by blast
  note c = armid_groups_cases [OF assms(1)]
  from c have sub: "m ''subscription'' \<noteq> None" by simp
  note l = rid_loop_parsed [OF g, of m] slashed_levels [OF g, of m]
  show ?thesis
  proof (cases "m ''namespace''")
    case None
    then show ?thesis
      by (cases "m ''resource_group''")
         (simp_all add: resource_id_def Let_def format_Txt_Fld format_Fld_Txt_Fld bindE_def rebuilt_def
            root_fields root_texts sub grp_def del: format.simps)
  next
    case (Some ns)
    then have ne: "m ''namespace'' \<noteq> None" by simp
    with c have tyn: "m ''type'' \<noteq> None" "m ''name'' \<noteq> None" by simp_all
    show ?thesis
      by (cases "m ''resource_group''")
         (simp_all add: resource_id_def Let_def format_Txt_Fld format_Fld_Txt_Fld bindE_def rebuilt_def
            root_fields root_texts sub ne tyn l join_slashed slashed_append Some
            del: format.simps One_nat_def upt_Suc, simp_all add: slashed_def grp_def Some)
  qed
qed


section \<open>Well-formed identifiers\<close>

text \<open>
  A well-formed identifier is the text of a subscription, an optional resource group and
  an optional root resource with the pairs after it. Each keyword is kept as it is
  written, since the patterns ignore the case of letters: \<open>/subscriptions/\<close>,
  \<open>/resourceGroups/\<close> and \<open>/providers/\<close> up to case. The subscription, the group, the
  namespace and the names are non-empty, no field contains \<open>/\<close>, and the pairs contain no
  line feed, which \<open>.*\<close> does not match.
\<close>

type_synonym group_part = "(string \<times> string) option"

type_synonym root_part = "(string \<times> string \<times> string \<times> string \<times> (string \<times> string) list) option"

definition render_group :: "group_part \<Rightarrow> string" where
  "render_group r = (case r of None \<Rightarrow> [] | Some (kw, g) \<Rightarrow> kw @ g)"

definition render_root :: "root_part \<Rightarrow> string" where
  "render_root r =
     (case r of None \<Rightarrow> []
      | Some (kw, ns, ty, nm, ps) \<Rightarrow> kw @ ns @ ''/'' @ ty @ ''/'' @ nm @ render_pairs ps)"

definition render_id :: "string \<Rightarrow> string \<Rightarrow> group_part \<Rightarrow> root_part \<Rightarrow> string" where
  "render_id kw sub rg rt = kw @ sub @ render_group rg @ render_root rt"

definition group_ok :: "group_part \<Rightarrow> bool" where
  "group_ok r = (case r of None \<Rightarrow> True | Some (kw, g) \<Rightarrow> lower kw = ''/resourcegroups/'' \<and> field_ok g)"

definition no_lf :: "string \<Rightarrow> bool" where
  "no_lf s = (CHR 0x0A \<notin> set s)"

definition root_ok :: "root_part \<Rightarrow> bool" where
  "root_ok r =
     (case r of None \<Rightarrow> True
      | Some (kw, ns, ty, nm, ps) \<Rightarrow>
          lower kw = ''/providers/'' \<and> field_ok ns \<and> CHR ''/'' \<notin> set ty \<and> field_ok nm \<and>
          list_all (\<lambda>p. pair_ok p \<and> no_lf (fst p) \<and> no_lf (snd p)) ps)"

definition well_formed :: "string \<Rightarrow> string \<Rightarrow> group_part \<Rightarrow> root_part \<Rightarrow> bool" where
  "well_formed kw sub rg rt =
     (lower kw = ''/subscriptions/'' \<and> field_ok sub \<and> group_ok rg \<and> root_ok rt)"

text \<open>The groups of \<open>_ARMID_RE\<close> and the matches of \<open>_CHILDREN_RE\<close> on a well-formed identifier.\<close>

definition groups_of :: "string \<Rightarrow> group_part \<Rightarrow> root_part \<Rightarrow> groups" where
  "groups_of sub rg rt =
     (let g1 = [''subscription'' \<mapsto> sub];
          g2 = (case rg of None \<Rightarrow> g1 | Some (kw, g) \<Rightarrow> g1(''resource_group'' \<mapsto> g))
      in case rt of None \<Rightarrow> g2
         | Some (kw, ns, ty, nm, ps) \<Rightarrow>
             g2(''namespace'' \<mapsto> ns, ''type'' \<mapsto> ty, ''name'' \<mapsto> nm, ''children'' \<mapsto> render_pairs ps))"

definition matches_of :: "root_part \<Rightarrow> groups list" where
  "matches_of rt = (case rt of None \<Rightarrow> [] | Some (kw, ns, ty, nm, ps) \<Rightarrow> scan_pairs ps)"

lemma render_pairs_no_lf:
  "list_all (\<lambda>p. pair_ok p \<and> no_lf (fst p) \<and> no_lf (snd p)) ps \<Longrightarrow> CHR 0x0A \<notin> set (render_pairs ps)"
  by (induction ps) (auto simp: render_pairs_Cons no_lf_def)

lemma takeWhile_all: "c \<notin> set s \<Longrightarrow> takeWhile (\<lambda>x. x \<noteq> c) s = s"
  by (induction s) auto

lemma lower_providers: "lower ''/providers/'' = ''/providers/''"
  by (simp add: lower_def lower_char_ascii)

lemma prov_groups_root:
  assumes "lower kw = ''/providers/''" "field_ok ns" "CHR ''/'' \<notin> set ty" "field_ok nm"
    "list_all (\<lambda>p. pair_ok p \<and> no_lf (fst p) \<and> no_lf (snd p)) ps"
  shows "prov_groups g (kw @ ns @ ''/'' @ ty @ ''/'' @ nm @ render_pairs ps) =
     Some (g(''namespace'' \<mapsto> ns, ''type'' \<mapsto> ty, ''name'' \<mapsto> nm, ''children'' \<mapsto> render_pairs ps))"
proof -
  let ?c = "nm @ render_pairs ps"
  let ?b = "ty @ CHR ''/'' # ?c"
  let ?a = "ns @ CHR ''/'' # ?b"
  from assms(2,4) have ns: "CHR ''/'' \<notin> set ns" "ns \<noteq> []" and nm: "CHR ''/'' \<notin> set nm" "nm \<noteq> []"
    by (simp_all add: field_ok_def)
  from assms(1) have "length (lower kw) = 11" by simp
  then have len: "length kw = 11" by (simp add: lower_def)
  have p: "ci_prefix ''/providers/'' (kw @ ?a)"
    by (rule ci_prefix_append) (simp add: assms(1) lower_providers)
  have d: "drop 11 (kw @ ?a) = ?a" using len by simp
  have a: "seg ?a = ns" "rest ?a = CHR ''/'' # ?b" by (rule seg_rest_slash [OF ns(1)])+
  have b: "seg ?b = ty" "rest ?b = CHR ''/'' # ?c" by (rule seg_rest_slash [OF assms(3)])+
  have c: "seg ?c = nm" "rest ?c = render_pairs ps"
    by (rule seg_rest_append [OF nm(1) render_pairs_hd])+
  have t: "takeWhile (\<lambda>x. x \<noteq> CHR 0x0A) (render_pairs ps) = render_pairs ps"
    by (rule takeWhile_all) (rule render_pairs_no_lf [OF assms(5)])
  have "prov_groups g (kw @ ?a) =
     Some (g(''namespace'' \<mapsto> ns, ''type'' \<mapsto> ty, ''name'' \<mapsto> nm, ''children'' \<mapsto> render_pairs ps))"
    unfolding prov_groups_def Let_def d a list.sel b c t
    using p ns(2) nm(2) by simp
  then show ?thesis by simp
qed

lemma prov_groups_Nil [simp]: "prov_groups g [] = None"
  by (simp add: prov_groups_def)

lemma render_root_groups:
  assumes "root_ok rt"
  shows "(case prov_groups g (render_root rt) of Some g3 \<Rightarrow> g3 | None \<Rightarrow> g) =
     (case rt of None \<Rightarrow> g
      | Some (kw, ns, ty, nm, ps) \<Rightarrow>
          g(''namespace'' \<mapsto> ns, ''type'' \<mapsto> ty, ''name'' \<mapsto> nm, ''children'' \<mapsto> render_pairs ps))"
proof (cases rt)
  case None
  then show ?thesis by (simp add: render_root_def)
next
  case (Some r)
  obtain kw ns ty nm ps where r: "r = (kw, ns, ty, nm, ps)" by (cases r)
  from assms Some r have ok: "lower kw = ''/providers/''" "field_ok ns" "CHR ''/'' \<notin> set ty" "field_ok nm"
    "list_all (\<lambda>p. pair_ok p \<and> no_lf (fst p) \<and> no_lf (snd p)) ps"
    by (simp_all add: root_ok_def)
  show ?thesis
    unfolding Some r render_root_def option.case prod.case prov_groups_root [OF ok] ..
qed

lemma render_root_hd: "root_ok rt \<Longrightarrow> render_root rt = [] \<or> hd (render_root rt) = CHR ''/''"
  by (cases rt) (auto simp: render_root_def root_ok_def lower_def)

lemma render_root_not_group:
  assumes "root_ok rt"
  shows "\<not> ci_prefix ''/resourceGroups/'' (render_root rt)"
proof (cases rt)
  case None
  then show ?thesis by (simp add: render_root_def)
next
  case (Some r)
  obtain kw ns ty nm ps where r: "r = (kw, ns, ty, nm, ps)" by (cases r)
  from assms Some r have "lower kw = ''/providers/''" by (simp add: root_ok_def)
  then obtain c0 c1 k where kw: "kw = c0 # c1 # k" and c1: "lower_char c1 = CHR ''p''"
    by (auto simp: lower_def)
  show ?thesis
    unfolding Some r render_root_def option.case prod.case kw
    by (simp add: c1 lower_char_ascii)
qed

lemma armid_groups_sub:
  assumes "lower kw = ''/subscriptions/''" "field_ok sub" "T = [] \<or> hd T = CHR ''/''"
  shows "armid_groups (kw @ sub @ T) =
     Some (if ci_prefix ''/resourceGroups/'' T \<and> seg (drop 16 T) \<noteq> []
           then (case prov_groups [''subscription'' \<mapsto> sub, ''resource_group'' \<mapsto> seg (drop 16 T)]
                        (rest (drop 16 T)) of
                   Some g3 \<Rightarrow> g3
                 | None \<Rightarrow> [''subscription'' \<mapsto> sub, ''resource_group'' \<mapsto> seg (drop 16 T)])
           else (case prov_groups [''subscription'' \<mapsto> sub] T of
                   Some g3 \<Rightarrow> g3
                 | None \<Rightarrow> [''subscription'' \<mapsto> sub]))"
proof -
  from assms(2) have sub: "CHR ''/'' \<notin> set sub" "sub \<noteq> []" by (simp_all add: field_ok_def)
  from assms(1) have "length (lower kw) = 15" by simp
  then have len: "length kw = 15" by (simp add: lower_def)
  have low: "lower ''/subscriptions/'' = ''/subscriptions/''"
    by (simp add: lower_def lower_char_ascii)
  have p: "ci_prefix ''/subscriptions/'' (kw @ sub @ T)"
    by (rule ci_prefix_append) (simp add: assms(1) low)
  have d: "drop 15 (kw @ sub @ T) = sub @ T" using len by simp
  have s: "seg (sub @ T) = sub" "rest (sub @ T) = T"
    by (rule seg_rest_append [OF sub(1) assms(3)])+
  show ?thesis
  proof (cases "ci_prefix ''/resourceGroups/'' T \<and> seg (drop 16 T) \<noteq> []")
    case True
    with p sub(2) show ?thesis unfolding armid_groups_def Let_def d s by simp
  next
    case False
    with p sub(2) show ?thesis unfolding armid_groups_def Let_def d s by auto
  qed
qed

lemma armid_groups_well_formed:
  assumes "well_formed kw sub rg rt"
  shows "armid_groups (render_id kw sub rg rt) = Some (groups_of sub rg rt)"
proof -
  from assms have k: "lower kw = ''/subscriptions/''" and sub: "field_ok sub"
    and g: "group_ok rg" and r: "root_ok rt"
    by (simp_all add: well_formed_def)
  show ?thesis
  proof (cases rg)
    case None
    have x: "render_id kw sub rg rt = kw @ sub @ render_root rt"
      by (simp add: render_id_def render_group_def None)
    show ?thesis
      unfolding x armid_groups_sub [OF k sub render_root_hd [OF r]]
      using render_root_not_group [OF r] render_root_groups [OF r, of "[''subscription'' \<mapsto> sub]"]
      by (simp add: groups_of_def Let_def None)
  next
    case (Some kg)
    obtain kwg gr where kg: "kg = (kwg, gr)" by (cases kg)
    from g Some kg have kwg: "lower kwg = ''/resourcegroups/''" and gr: "CHR ''/'' \<notin> set gr" "gr \<noteq> []"
      by (simp_all add: group_ok_def field_ok_def)
    let ?T = "kwg @ gr @ render_root rt"
    have x: "render_id kw sub rg rt = kw @ sub @ ?T"
      by (simp add: render_id_def render_group_def Some kg)
    from kwg have "length (lower kwg) = 16" by simp
    then have leng: "length kwg = 16" by (simp add: lower_def)
    have lowg: "lower ''/resourceGroups/'' = ''/resourcegroups/''"
      by (simp add: lower_def lower_char_ascii)
    have hd: "?T = [] \<or> hd ?T = CHR ''/''"
      using kwg by (auto simp: lower_def)
    have pg: "ci_prefix ''/resourceGroups/'' ?T"
      by (rule ci_prefix_append) (simp add: kwg lowg)
    have dg: "drop 16 ?T = gr @ render_root rt" using leng by simp
    have sg: "seg (gr @ render_root rt) = gr" "rest (gr @ render_root rt) = render_root rt"
      by (rule seg_rest_append [OF gr(1) render_root_hd [OF r]])+
    show ?thesis
      unfolding x armid_groups_sub [OF k sub hd] dg sg
      using pg gr(2)
        render_root_groups [OF r, of "[''subscription'' \<mapsto> sub, ''resource_group'' \<mapsto> gr]"]
      by (simp add: groups_of_def Let_def Some kg)
  qed
qed

lemma child_scan_well_formed:
  assumes "well_formed kw sub rg rt"
  shows "child_scan (children_text (groups_of sub rg rt)) = matches_of rt"
proof (cases rt)
  case None
  then show ?thesis
    by (cases rg) (auto simp: groups_of_def Let_def children_text_def matches_of_def)
next
  case (Some r)
  obtain kwp ns ty nm ps where r: "r = (kwp, ns, ty, nm, ps)" by (cases r)
  from assms Some r have "list_all (\<lambda>p. pair_ok p \<and> no_lf (fst p) \<and> no_lf (snd p)) ps"
    by (simp add: well_formed_def root_ok_def)
  then have "\<forall>p\<in>set ps. pair_ok p" by (simp add: list_all_iff)
  then have "child_scan (render_pairs ps) = scan_pairs ps" by (rule child_scan_pairs)
  then show ?thesis
    by (cases rg) (auto simp: groups_of_def Let_def children_text_def matches_of_def Some r)
qed

lemma parse_well_formed:
  assumes "well_formed kw sub rg rt"
  shows "parse_resource_id (render_id kw sub rg rt) =
     Inr (drop_none (parsed_full (groups_of sub rg rt) (matches_of rt)))"
  by (rule parse_matched [OF armid_groups_well_formed [OF assms] child_scan_well_formed [OF assms]])

lemma build_well_formed:
  assumes "well_formed kw sub rg rt"
  shows "resource_id (drop_none (parsed_full (groups_of sub rg rt) (matches_of rt))) =
     Inr (rebuilt (groups_of sub rg rt) (matches_of rt))"
  by (rule resource_id_parsed [OF armid_groups_well_formed [OF assms]
        child_scan_well_formed [OF assms, symmetric]])


section \<open>The round trip\<close>

lemma lower_append [simp]: "lower (a @ b) = lower a @ lower b"
  by (simp add: lower_def)

lemma lower_Cons [simp]: "lower (c # s) = lower_char c # lower s"
  by (simp add: lower_def)

lemma lower_Nil [simp]: "lower [] = []"
  by (simp add: lower_def)

lemma lower_units: "lower (concat (map unit_text (scan_pairs ps))) = lower (render_pairs ps)"
  by (induction ps rule: scan_pairs.induct)
     (simp_all add: unit_text_def grp_def render_pairs_Cons lower_char_ascii)

lemma groups_of_simps:
  "groups_of sub rg rt ''subscription'' = Some sub"
  "groups_of sub rg rt ''resource_group'' = map_option snd rg"
  "groups_of sub rg rt ''namespace'' = map_option (\<lambda>(kw, ns, ty, nm, ps). ns) rt"
  "groups_of sub rg rt ''type'' = map_option (\<lambda>(kw, ns, ty, nm, ps). ty) rt"
  "groups_of sub rg rt ''name'' = map_option (\<lambda>(kw, ns, ty, nm, ps). nm) rt"
  "groups_of sub rg rt ''children'' = map_option (\<lambda>(kw, ns, ty, nm, ps). render_pairs ps) rt"
  by (cases rg; cases rt; simp add: groups_of_def Let_def split: prod.splits)+

lemma lower_rebuilt:
  assumes "well_formed kw sub rg rt"
  shows "lower (rebuilt (groups_of sub rg rt) (matches_of rt)) = lower (render_id kw sub rg rt)"
proof -
  from assms have k: "lower kw = ''/subscriptions/''" and g: "group_ok rg" and r: "root_ok rt"
    by (simp_all add: well_formed_def)
  have low: "lower ''/subscriptions/'' = ''/subscriptions/''"
    "lower ''/resourceGroups/'' = ''/resourcegroups/''" "lower ''/providers/'' = ''/providers/''"
    by (simp_all add: lower_char_ascii)
  have gp: "lower (case groups_of sub rg rt ''resource_group'' of None \<Rightarrow> []
      | Some g \<Rightarrow> ''/resourceGroups/'' @ g) = lower (render_group rg)"
    using g low(2) by (cases rg) (auto simp: groups_of_simps render_group_def group_ok_def lower_char_ascii)
  have rp: "lower (case groups_of sub rg rt ''namespace'' of None \<Rightarrow> []
      | Some ns \<Rightarrow> ''/providers/'' @ ns @ ''/'' @ grp (groups_of sub rg rt) ''type'' @ ''/'' @
          grp (groups_of sub rg rt) ''name'' @ concat (map unit_text (matches_of rt))) =
      lower (render_root rt)"
  proof (cases rt)
    case None
    then show ?thesis by (simp add: groups_of_simps render_root_def)
  next
    case (Some q)
    obtain kwp ns ty nm ps where q: "q = (kwp, ns, ty, nm, ps)" by (cases q)
    from r Some q have "lower kwp = ''/providers/''" by (simp add: root_ok_def)
    then show ?thesis
      using low(3) lower_units [of ps]
      by (simp add: groups_of_simps render_root_def Some q grp_def matches_of_def lower_char_ascii)
  qed
  have "lower (rebuilt (groups_of sub rg rt) (matches_of rt)) =
      lower ''/subscriptions/'' @ lower sub @ lower (render_group rg) @ lower (render_root rt)"
    unfolding rebuilt_def lower_append gp rp by (simp add: grp_def groups_of_simps)
  then show ?thesis
    by (simp add: render_id_def k lower_char_ascii)
qed



text \<open>
  A child name may contain a line feed, which \<open>[^/]+\<close> matches and the \<open>.*\<close> of the
  \<open>children\<close> group does not: the identifier below has the canonical shape, and its
  children are cut at the line feed, so that the recomposed identifier is shorter.
\<close>

lemma lf_name_groups:
  "armid_groups (''/subscriptions/S/providers/NS/T/N/CT/C'' @ CHR 0x0A # ''N'') =
   Some [''subscription'' \<mapsto> ''S'', ''namespace'' \<mapsto> ''NS'', ''type'' \<mapsto> ''T'', ''name'' \<mapsto> ''N'',
     ''children'' \<mapsto> ''/CT/C'']"
  by (simp add: eval_rx)

lemma lf_name_scan: "child_scan ''/CT/C'' = [[''child_type'' \<mapsto> ''CT'', ''child_name'' \<mapsto> ''C'']]"
  by (simp add: eval_scan)



section \<open>Parsing the recomposed identifier\<close>

text \<open>
  The dictionary of a parse depends on the \<open>children\<close> group only under the key
  \<open>children\<close>: every other key is computed from the other groups and from the child
  matches.
\<close>

lemma children_loop_agree:
  "fmlookup d' k = fmlookup d k \<Longrightarrow>
   fmlookup (fst (children_loop zs (d', c'))) k = fmlookup (fst (children_loop zs (d, c))) k"
proof (induction zs arbitrary: d d' c c')
  case Nil
  then show ?case by simp
next
  case (Cons z zs)
  obtain count child where z: "z = (count, child)" by (cases z)
  have "fmlookup (child_upd (Suc count) child d') k = fmlookup (child_upd (Suc count) child d) k"
    using Cons.prems by (simp add: child_upd_def)
  from Cons.IH [OF this] show ?case
    unfolding z children_loop_Cons .
qed

lemma raw_agree:
  assumes "\<And>g. g \<noteq> ''children'' \<Longrightarrow> m' g = m g" "k \<noteq> ''children''"
  shows "fmlookup (parsed_raw m' cs) k = fmlookup (parsed_raw m cs) k"
proof -
  have "group_val m' k = group_val m k"
    using assms by (simp add: group_val_def)
  then have "fmlookup (groupdict ARMID_groups m') k = fmlookup (groupdict ARMID_groups m) k"
    by (simp add: groupdict_lookup)
  then have "fmlookup (fst (children_loop (zip [0..<length cs] cs) (groupdict ARMID_groups m', None))) k =
      fmlookup (fst (children_loop (zip [0..<length cs] cs) (groupdict ARMID_groups m, None))) k"
    by (rule children_loop_agree)
  then show ?thesis by (simp add: parsed_raw_def)
qed

lemma parent_acc_agree:
  assumes "\<And>g. g \<noteq> ''children'' \<Longrightarrow> m' g = m g"
  shows "parent_acc (parsed_raw m' cs) r a j = parent_acc (parsed_raw m cs) r a j"
proof -
  have "provider_seg (parsed_raw m' cs) i = provider_seg (parsed_raw m cs) i" for i
    by (simp add: provider_seg_def dict_get_def raw_agree [of m' m, OF assms])
  moreover have "type_name_seg (parsed_raw m' cs) i = type_name_seg (parsed_raw m cs) i" for i
    by (simp add: type_name_seg_def dict_get_def raw_agree [of m' m, OF assms])
  ultimately show ?thesis by (simp add: parent_acc_def)
qed

lemma with_parents_agree:
  assumes "\<And>g. g \<noteq> ''children'' \<Longrightarrow> m' g = m g" "k \<noteq> ''children''"
  shows "fmlookup (with_parents (parsed_raw m' cs) r n) k = fmlookup (with_parents (parsed_raw m cs) r n) k"
proof (cases "\<exists>i. 1 \<le> i \<and> i \<le> n \<and> k = parent_key i")
  case True
  then obtain i where i: "1 \<le> i" "i \<le> n" and k: "k = parent_key i" by blast
  have "parent_acc (parsed_raw m' cs) r 1 i = parent_acc (parsed_raw m cs) r 1 i"
    by (rule parent_acc_agree [OF assms(1)])
  then show ?thesis
    by (simp only: k with_parents_key [OF i])
next
  case False
  then have o: "\<And>i. 1 \<le> i \<Longrightarrow> i \<le> n \<Longrightarrow> k \<noteq> parent_key i" by blast
  have "fmlookup (with_parents (parsed_raw m' cs) r n) k = fmlookup (parsed_raw m' cs) k"
    by (rule with_parents_other [OF o])
  moreover have "fmlookup (with_parents (parsed_raw m cs) r n) k = fmlookup (parsed_raw m cs) k"
    by (rule with_parents_other [OF o])
  moreover have "fmlookup (parsed_raw m' cs) k = fmlookup (parsed_raw m cs) k"
    by (rule raw_agree [OF assms])
  ultimately show ?thesis by (simp only:)
qed

lemma full_agree:
  assumes "\<And>g. g \<noteq> ''children'' \<Longrightarrow> m' g = m g" "k \<noteq> ''children''"
  shows "fmlookup (drop_none (parsed_full m' cs)) k = fmlookup (drop_none (parsed_full m cs)) k"
proof -
  have gv: "group_val m' g = group_val m g" if "g \<noteq> ''children''" for g
    using assms(1) [OF that] by (simp add: group_val_def)
  have "root_seg m' = root_seg m"
    by (simp add: root_seg_def gv)
  moreover have "pick m' cs b g = pick m cs b g" if "g \<noteq> ''children''" for b g
    by (simp add: pick_def gv [OF that])
  ultimately have "fmlookup (parsed_full m' cs) k = fmlookup (parsed_full m cs) k"
    using with_parents_agree [of m' m k cs "root_seg m" "length cs", OF assms]
    by (simp add: parsed_full_def gv parent_acc_agree [of m' m, OF assms(1)])
  then show ?thesis by (simp add: lookup_drop_none)
qed

text \<open>
  The recomposed identifier is well-formed again, with the keywords as \<open>resource_id\<close>
  writes them; \<open>finditer\<close> finds the same children in it.
\<close>

fun canon :: "(string \<times> string) list \<Rightarrow> (string \<times> string) list" where
  "canon [] = []"
| "canon [p] = [p]"
| "canon (p # q # ps) =
     (if lower (fst p) = ''providers'' then (''providers'', snd p) # q # canon ps
      else p # canon (q # ps))"

definition canon_group :: "group_part \<Rightarrow> group_part" where
  "canon_group rg = map_option (\<lambda>(kw, g). (''/resourceGroups/'', g)) rg"

definition canon_root :: "root_part \<Rightarrow> root_part" where
  "canon_root rt = map_option (\<lambda>(kw, ns, ty, nm, ps). (''/providers/'', ns, ty, nm, canon ps)) rt"

lemma scan_pairs_plain:
  "lower (fst p) \<noteq> ''providers'' \<Longrightarrow>
   scan_pairs (p # ps) = [''child_type'' \<mapsto> fst p, ''child_name'' \<mapsto> snd p] # scan_pairs ps"
  by (cases ps) simp_all

lemma scan_pairs_canon: "scan_pairs (canon ps) = scan_pairs ps"
  by (induction ps rule: canon.induct) (simp_all add: scan_pairs_plain lower_char_ascii)

lemma render_pairs_canon: "render_pairs (canon ps) = concat (map unit_text (scan_pairs ps))"
  by (induction ps rule: canon.induct)
     (simp_all add: render_pairs_Cons unit_text_def grp_def)

lemma canon_ok:
  "list_all (\<lambda>p. pair_ok p \<and> no_lf (fst p) \<and> no_lf (snd p)) ps \<Longrightarrow>
   list_all (\<lambda>p. pair_ok p \<and> no_lf (fst p) \<and> no_lf (snd p)) (canon ps)"
  by (induction ps rule: canon.induct) (simp_all add: pair_ok_def no_lf_def)

lemma well_formed_canon:
  assumes "well_formed kw sub rg rt"
  shows "well_formed ''/subscriptions/'' sub (canon_group rg) (canon_root rt)"
proof -
  have "group_ok (canon_group rg)"
    using assms by (cases rg) (auto simp: well_formed_def group_ok_def canon_group_def lower_char_ascii)
  moreover have "root_ok (canon_root rt)"
    using assms by (cases rt) (auto simp: well_formed_def root_ok_def canon_root_def lower_char_ascii canon_ok)
  ultimately show ?thesis
    using assms by (simp add: well_formed_def lower_char_ascii)
qed

lemma rebuilt_canon:
  "rebuilt (groups_of sub rg rt) (matches_of rt) =
     render_id ''/subscriptions/'' sub (canon_group rg) (canon_root rt)"
  by (cases rg; cases rt)
     (auto simp: rebuilt_def groups_of_simps grp_def matches_of_def render_id_def render_group_def
        render_root_def canon_group_def canon_root_def render_pairs_canon)

lemma matches_of_canon: "matches_of (canon_root rt) = matches_of rt"
  by (cases rt) (auto simp: matches_of_def canon_root_def scan_pairs_canon)

lemma groups_of_canon:
  "g \<noteq> ''children'' \<Longrightarrow> groups_of sub (canon_group rg) (canon_root rt) g = groups_of sub rg rt g"
  by (cases rg; cases rt) (auto simp: groups_of_def Let_def canon_group_def canon_root_def)

lemma children_canon:
  "map_option lower (groups_of sub (canon_group rg) (canon_root rt) ''children'') =
   map_option lower (groups_of sub rg rt ''children'')"
  by (cases rt) (auto simp: groups_of_simps canon_root_def render_pairs_canon lower_units)

text \<open>The value of a key as a string in lower case: \<open>None\<close> when the key is absent.\<close>

definition lower_val :: "val option \<Rightarrow> string option" where
  "lower_val v = (case v of Some (VStr s) \<Rightarrow> Some (lower s) | _ \<Rightarrow> None)"

lemma lower_val_opt_str: "lower_val (opt_str a) = map_option lower a"
  by (cases a) (simp_all add: lower_val_def opt_str_def)

text \<open>The text under the key \<open>children\<close> of the parse of a well-formed identifier.\<close>

definition children_of :: "root_part \<Rightarrow> val option" where
  "children_of rt = map_option (\<lambda>(kw, ns, ty, nm, ps). VStr (render_pairs ps)) rt"

lemma children_of_groups: "opt_str (groups_of sub rg rt ''children'') = children_of rt"
  by (cases rt) (auto simp: groups_of_simps children_of_def opt_str_def)


text \<open>
  The identifier \<open>/subscriptions/S/providers/NS/T/N/PROVIDERS/CNS/CT/CN\<close> is well-formed.
  Its parse keeps the text \<open>/PROVIDERS/CNS/CT/CN\<close> under \<open>children\<close>; \<open>resource_id\<close> writes
  \<open>providers\<close>, and the parse of the recomposed identifier has \<open>/providers/CNS/CT/CN\<close>
  there: the two mappings differ.
\<close>

lemma upper_providers_well_formed:
  "well_formed ''/subscriptions/'' ''S'' None
     (Some (''/providers/'', ''NS'', ''T'', ''N'', [(''PROVIDERS'', ''CNS''), (''CT'', ''CN'')]))"
  by (simp add: well_formed_def group_ok_def root_ok_def field_ok_def pair_ok_def no_lf_def
        lower_char_ascii)

lemma upper_providers_render:
  "render_id ''/subscriptions/'' ''S'' None
     (Some (''/providers/'', ''NS'', ''T'', ''N'', [(''PROVIDERS'', ''CNS''), (''CT'', ''CN'')])) =
   ''/subscriptions/S/providers/NS/T/N/PROVIDERS/CNS/CT/CN''"
  by (simp add: render_id_def render_group_def render_root_def render_pairs_def)

lemma upper_providers_rebuilt:
  "rebuilt (groups_of ''S'' None
       (Some (''/providers/'', ''NS'', ''T'', ''N'', [(''PROVIDERS'', ''CNS''), (''CT'', ''CN'')])))
     (matches_of (Some (''/providers/'', ''NS'', ''T'', ''N'', [(''PROVIDERS'', ''CNS''), (''CT'', ''CN'')]))) =
   ''/subscriptions/S/providers/NS/T/N/providers/CNS/CT/CN''"
  by (simp add: rebuilt_canon render_id_def render_group_def render_root_def render_pairs_def
        canon_group_def canon_root_def lower_char_ascii)



end
